theory Spec2Isabelle
  imports Main "HOL-Library.Multiset"
begin

section \<open>Python values and exceptions\<close>

text \<open>
  The module \<^verbatim>\<open>deepnog/data/dataset.py\<close> is embedded function by function.
  Python integers are \<^typ>\<open>int\<close>, strings are \<^typ>\<open>string\<close>, a dict is a map,
  and every exception the code can raise is a value of \<open>exc\<close>; a function that can
  raise returns \<open>exc + 'a\<close> with \<open>Inl\<close> for the exception.

  The characters of a string are the 8-bit characters of HOL, read as ASCII: the
  values below 128 are the ASCII characters, and the values from 128 on stand for no
  character of Python. \<open>upper\<close> and \<open>lower\<close> are \<^verbatim>\<open>str.upper()\<close> and
  \<^verbatim>\<open>str.lower()\<close> on an ASCII character (the alphabet of the module,
  \<^verbatim>\<open>EXTENDED_IUPAC_PROTEIN_ALPHABET\<close>, is ASCII); on the values from 128 on they
  are the identity, which is not Python's case mapping, so whatever is stated about
  case folding is stated for ASCII strings. The case mapping of Unicode beyond ASCII
  enters the vocabulary builder as a parameter.
\<close>

datatype exc = StopIteration | ValueError | IndexError | NotImplementedError

definition upper :: "char \<Rightarrow> char" where
  "upper c = (let n = (of_char c :: nat) in
     if 97 \<le> n \<and> n \<le> 122 then char_of (n - 32) else c)"

definition lower :: "char \<Rightarrow> char" where
  "lower c = (let n = (of_char c :: nat) in
     if 65 \<le> n \<and> n \<le> 90 then char_of (n + 32) else c)"

definition is_ascii :: "char \<Rightarrow> bool" where
  "is_ascii c = ((of_char c :: nat) < 128)"

text \<open>\<^verbatim>\<open>d.get(k, default)\<close> on a dict.\<close>

definition dict_get :: "('k \<rightharpoonup> 'v) \<Rightarrow> 'k \<Rightarrow> 'v \<Rightarrow> 'v" where
  "dict_get d k dflt = (case d k of None \<Rightarrow> dflt | Some v \<Rightarrow> v)"

section \<open>The vocabulary: \<^verbatim>\<open>gen_amino_acid_vocab\<close>\<close>

text \<open>
  The default alphabet is imported from \<^verbatim>\<open>deepnog.utils\<close>; its value is the one
  the docstring of \<^verbatim>\<open>gen_amino_acid_vocab\<close> gives.
\<close>

definition EXTENDED_IUPAC_PROTEIN_ALPHABET :: string where
  "EXTENDED_IUPAC_PROTEIN_ALPHABET = ''ACDEFGHIKLMNPQRSTVWYBXZJUO''"

text \<open>
  \<^verbatim>\<open>
  aminoacid_to_ix = {}
  for i, aa in enumerate(alphabet):
      for key in [aa.upper(), aa.lower()]:
          aminoacid_to_ix[key] = i + 1
  \<close>
  \<open>vocab_loop str_upper str_lower i alphabet d\<close> is the loop from counter \<open>i\<close>
  on, over the rest of the alphabet, with the dict built so far. The case mappings
  \<^verbatim>\<open>str.upper\<close> and \<^verbatim>\<open>str.lower\<close> of Python are its first two arguments, so
  that the loop is the same for every set of characters. The source has no check and
  no \<^verbatim>\<open>raise\<close>: the function returns a dict for every string.
\<close>

fun vocab_loop ::
  "('a \<Rightarrow> 'a) \<Rightarrow> ('a \<Rightarrow> 'a) \<Rightarrow> int \<Rightarrow> 'a list \<Rightarrow> ('a \<rightharpoonup> int) \<Rightarrow> ('a \<rightharpoonup> int)" where
  "vocab_loop str_upper str_lower i [] d = d"
| "vocab_loop str_upper str_lower i (aa # rest) d =
     vocab_loop str_upper str_lower (i + 1) rest
       (d(str_upper aa \<mapsto> i + 1, str_lower aa \<mapsto> i + 1))"

text \<open>The function for an alphabet over any set of characters with its case mappings,
  and the function of the module on strings of ASCII characters.\<close>

definition gen_amino_acid_vocab_with ::
  "('a \<Rightarrow> 'a) \<Rightarrow> ('a \<Rightarrow> 'a) \<Rightarrow> 'a list \<Rightarrow> ('a \<rightharpoonup> int)" where
  "gen_amino_acid_vocab_with str_upper str_lower alphabet =
     vocab_loop str_upper str_lower 0 alphabet Map.empty"

definition gen_amino_acid_vocab :: "string option \<Rightarrow> (char \<rightharpoonup> int)" where
  "gen_amino_acid_vocab alphabet =
     gen_amino_acid_vocab_with upper lower
       (case alphabet of None \<Rightarrow> EXTENDED_IUPAC_PROTEIN_ALPHABET | Some a \<Rightarrow> a)"

text \<open>
  Three characters of Unicode beyond the ASCII instance: the dotless small letter i
  (U+0131), the capital letter I (U+0049) and the small letter i (U+0069), with
  Python's \<^verbatim>\<open>str.upper()\<close> and \<^verbatim>\<open>str.lower()\<close> on them. The upper-case form
  of all three is the capital I; the dotless i is its own lower-case form (and its own
  \<^verbatim>\<open>str.casefold()\<close>), the lower-case form of the other two is the small i.
\<close>

datatype letter_i = Dotless_i | Capital_I | Small_i

fun upper_i :: "letter_i \<Rightarrow> letter_i" where
  "upper_i Dotless_i = Capital_I"
| "upper_i Capital_I = Capital_I"
| "upper_i Small_i = Capital_I"

fun lower_i :: "letter_i \<Rightarrow> letter_i" where
  "lower_i Dotless_i = Dotless_i"
| "lower_i Capital_I = Small_i"
| "lower_i Small_i = Small_i"

text \<open>The per-character lookup of \<^verbatim>\<open>ProteinIterator.__next__\<close>:
  \<^verbatim>\<open>[self.vocab.get(c, 0) for c in next_seq.seq]\<close>.\<close>

definition encode :: "(char \<rightharpoonup> int) \<Rightarrow> string \<Rightarrow> int list" where
  "encode vocab s = map (\<lambda>c. dict_get vocab c 0) s"

text \<open>An alphabet of ASCII characters has a repeated letter after case folding when
  two of its positions hold the same letter up to case.\<close>

definition case_distinct :: "string \<Rightarrow> bool" where
  "case_distinct alphabet = distinct (map lower alphabet)"

text \<open>The keys that an alphabet letter writes into the dict, and the code point of a
  character (used to reason about case folding).\<close>

definition key_of :: "char \<Rightarrow> char \<Rightarrow> bool" where
  "key_of aa c = (upper aa = c \<or> lower aa = c)"

definition code_point :: "char \<Rightarrow> nat" where
  "code_point c = of_char c"

section \<open>Records of the source and of the output\<close>

text \<open>
  A record of the parsed file (Biopython's \<^verbatim>\<open>SeqRecord\<close>, read through its
  \<^verbatim>\<open>id\<close> and \<^verbatim>\<open>seq\<close>), and the named tuples \<^verbatim>\<open>sequence\<close> and
  \<^verbatim>\<open>collated_sequences\<close> of the module.
\<close>

record SeqRecord =
  rec_id :: string
  rec_seq :: string

record sequence_tuple =
  seq_index :: int
  seq_id :: string
  seq_string :: string
  seq_encoded :: "int list"
  seq_label :: "int option"

record collated_sequences =
  indices :: "int list"
  ids :: "string list"
  sequences :: "int list list"
  labels :: "int list option"

definition UNINITIALIZED_POS :: int where
  "UNINITIALIZED_POS = - 999"

section \<open>Library functions the module calls\<close>

text \<open>
  \<^verbatim>\<open>_consume(iterator, n)\<close>: with \<^verbatim>\<open>n = None\<close> the iterator is consumed
  entirely; otherwise \<^verbatim>\<open>next(islice(iterator, n, n), None)\<close> advances it by
  \<open>n\<close> records, or to its end when fewer are left. \<^verbatim>\<open>islice\<close> raises
  \<^verbatim>\<open>ValueError\<close> for a negative \<open>n\<close>, before anything is read. The iterator
  over the file is the list of the records not yet read.
\<close>

definition consume :: "'a list \<Rightarrow> int option \<Rightarrow> exc + 'a list" where
  "consume iterator n =
     (case n of
        None \<Rightarrow> Inr []
      | Some k \<Rightarrow> if k < 0 then Inl ValueError else Inr (drop (nat k) iterator))"

text \<open>
  The random generator of NumPy is a stream of raw draws \<open>g 0, g 1, \<dots>\<close>, one per
  call. \<^verbatim>\<open>np.random.randint(low, high)\<close> returns an integer of
  \<open>[low, high)\<close> and raises \<^verbatim>\<open>ValueError\<close> when \<open>low \<ge> high\<close>;
  \<^verbatim>\<open>np.random.choice(n)\<close> returns an integer of \<open>[0, n)\<close> and raises
  \<^verbatim>\<open>ValueError\<close> when \<open>n \<le> 0\<close>. Every value of the range is the result for
  some raw draw, and no other value is; the distribution is not part of the model.
\<close>

definition randint :: "int \<Rightarrow> int \<Rightarrow> nat \<Rightarrow> exc + int" where
  "randint low high r =
     (if low \<ge> high then Inl ValueError else Inr (low + int (r mod nat (high - low))))"

definition choice :: "int \<Rightarrow> nat \<Rightarrow> exc + int" where
  "choice n r = (if n \<le> 0 then Inl ValueError else Inr (int (r mod nat n)))"

text \<open>\<^verbatim>\<open>xs[i]\<close> on a Python list: a negative index counts from the end, an index
  out of range raises \<^verbatim>\<open>IndexError\<close>.\<close>

definition list_item :: "'a list \<Rightarrow> int \<Rightarrow> exc + 'a" where
  "list_item xs i =
     (let j = (if i < 0 then int (length xs) + i else i)
      in if 0 \<le> j \<and> j < int (length xs) then Inr (xs ! nat j) else Inl IndexError)"

text \<open>
  \<^verbatim>\<open>np.zeros((n_data, max_len), dtype=np.int)\<close> raises \<^verbatim>\<open>ValueError\<close> for a
  negative dimension (\<^verbatim>\<open>np.int\<close> is Python's \<^verbatim>\<open>int\<close>, as in the NumPy
  versions the module was written for). \<^verbatim>\<open>row[first:stop] = values\<close> on a row of a NumPy array needs as many
  values as the slice has places.
  \<^verbatim>\<open>default_collate(array)\<close> of PyTorch reads \<^verbatim>\<open>array[0]\<close> first, which
  raises \<^verbatim>\<open>IndexError\<close> on an array with no row; on an array with rows it
  returns the tensor of the same contents.
\<close>

definition np_zeros :: "nat \<Rightarrow> int \<Rightarrow> exc + int list list" where
  "np_zeros n_data max_len =
     (if max_len < 0 then Inl ValueError
      else Inr (replicate n_data (replicate (nat max_len) 0)))"

definition slice_assign :: "int list \<Rightarrow> int \<Rightarrow> int \<Rightarrow> int list \<Rightarrow> exc + int list" where
  "slice_assign row first stop vals =
     (if 0 \<le> first \<and> first \<le> stop \<and> stop \<le> int (length row)
         \<and> int (length vals) = stop - first
      then Inr (take (nat first) row @ vals @ drop (nat stop) row)
      else Inl ValueError)"

definition default_collate :: "'a list \<Rightarrow> exc + 'a list" where
  "default_collate array = (case array of [] \<Rightarrow> Inl IndexError | _ # _ \<Rightarrow> Inr array)"

section \<open>The sharded iterator: \<^verbatim>\<open>ProteinIterator\<close>\<close>

text \<open>
  \<^verbatim>\<open>n_skipped\<close> is either a plain integer of the iterator's own or the
  \<^verbatim>\<open>SynchronizedCounter\<close> of the dataset, which lives outside the iterator: its
  value is threaded through every function as a separate argument \<open>c\<close>.
  \<open>closed\<close> counts the calls of \<^verbatim>\<open>self.iterator.close()\<close>.
\<close>

datatype skip_counter = PlainInt int | Synchronized

record ProteinIterator =
  iterator :: "SeqRecord list"
  closed :: nat
  has_labels :: bool
  label_from_id :: "string \<rightharpoonup> int"
  vocab :: "char \<rightharpoonup> int"
  n_skipped :: skip_counter
  start :: int
  pos :: int
  step :: int

text \<open>
  \<^verbatim>\<open>__init__\<close>. The file is given by the records \<^verbatim>\<open>SeqIO.parse\<close> reads from
  it, the label table by its rows \<open>(protein_id, label_num)\<close>; in the dict
  comprehension a later row overwrites an earlier one with the same id.
\<close>

definition ProteinIterator_init ::
  "SeqRecord list \<Rightarrow> (string \<times> int) list option \<Rightarrow> (char \<rightharpoonup> int) \<Rightarrow> skip_counter \<Rightarrow>
     int \<Rightarrow> int \<Rightarrow> ProteinIterator" where
  "ProteinIterator_init file' labels' aa_vocab n_skipped' num_workers worker_id =
     \<lparr> iterator = file',
       closed = 0,
       has_labels = (labels' \<noteq> None),
       label_from_id =
         (case labels' of
            None \<Rightarrow> Map.empty
          | Some rows \<Rightarrow> fold (\<lambda>row d. d(fst row \<mapsto> snd row)) rows Map.empty),
       vocab = aa_vocab,
       n_skipped = n_skipped',
       start = worker_id,
       pos = UNINITIALIZED_POS,
       step = num_workers - 1 \<rparr>"

text \<open>Modelled from the spec: the class \<^verbatim>\<open>SynchronizedCounter\<close> of
  \<^verbatim>\<open>deepnog.utils\<close> is not among the sources. It is the shared skip counter
  of the spec, and \<^verbatim>\<open>counter += n\<close> adds \<open>n\<close> to the shared value.\<close>

definition SynchronizedCounter_iadd :: "int \<Rightarrow> int \<Rightarrow> int" where
  "SynchronizedCounter_iadd c n = c + n"

text \<open>\<^verbatim>\<open>self.n_skipped += 1\<close>, on a plain integer or on the shared counter.\<close>

definition incr_skipped :: "int \<Rightarrow> ProteinIterator \<Rightarrow> int \<times> ProteinIterator" where
  "incr_skipped c it =
     (case n_skipped it of
        PlainInt k \<Rightarrow> (c, it\<lparr>n_skipped := PlainInt (k + 1)\<rparr>)
      | Synchronized \<Rightarrow> (SynchronizedCounter_iadd c 1, it))"

text \<open>The validity test of \<^verbatim>\<open>__next__\<close>:
  \<^verbatim>\<open>sequence_id == '' or (self.has_labels and label is None)\<close>.\<close>

definition invalid :: "ProteinIterator \<Rightarrow> SeqRecord \<Rightarrow> bool" where
  "invalid it next_seq =
     (rec_id next_seq = [] \<or> (has_labels it \<and> label_from_id it (rec_id next_seq) = None))"

text \<open>
  The body of the \<^verbatim>\<open>try\<close> up to the record that is returned:
  \<^verbatim>\<open>
  next_seq = next(self.iterator)
  sequence_id = f'{next_seq.id}'
  label = self.label_from_id.get(sequence_id)
  while sequence_id == '' or (self.has_labels and label is None):
      self.n_skipped += 1
      _consume(self.iterator, n=self.step)
      self.pos += self.step + 1
      next_seq = next(self.iterator)
      ...
  \<close>
  One call of \<open>pull_valid\<close> is one \<^verbatim>\<open>next(self.iterator)\<close> with the test that
  follows it; the recursive call is the next round of the loop.
\<close>

function pull_valid ::
  "int \<Rightarrow> ProteinIterator \<Rightarrow> (int \<times> ProteinIterator) \<times> (exc + SeqRecord \<times> int option)" where
  "pull_valid c it =
     (case iterator it of
        [] \<Rightarrow> ((c, it), Inl StopIteration)
      | next_seq # rest \<Rightarrow>
          if invalid it next_seq then
            (case incr_skipped c (it\<lparr>iterator := rest\<rparr>) of
               (c1, it1) \<Rightarrow>
                 (case consume (iterator it1) (Some (step it1)) of
                    Inl e \<Rightarrow> ((c1, it1), Inl e)
                  | Inr rest' \<Rightarrow>
                      pull_valid c1 (it1\<lparr>iterator := rest', pos := pos it1 + step it1 + 1\<rparr>)))
          else ((c, it\<lparr>iterator := rest\<rparr>), Inr (next_seq, label_from_id it (rec_id next_seq))))"
  by pat_completeness auto
termination
  by (relation "measure (\<lambda>(c, it). length (iterator it))")
     (auto simp add: incr_skipped_def consume_def split: skip_counter.splits if_splits)

text \<open>\<^verbatim>\<open>__next__\<close>: the new state of the counter and the iterator, and the record
  returned or the exception raised.\<close>

definition ProteinIterator_next ::
  "int \<Rightarrow> ProteinIterator \<Rightarrow> (int \<times> ProteinIterator) \<times> (exc + sequence_tuple)" where
  "ProteinIterator_next c it =
     (case (if pos it = UNINITIALIZED_POS
            then map_sum id (\<lambda>rest. it\<lparr>iterator := rest, pos := start it + 1\<rparr>)
                   (consume (iterator it) (Some (start it)))
            else map_sum id (\<lambda>rest. it\<lparr>iterator := rest, pos := pos it + step it + 1\<rparr>)
                   (consume (iterator it) (Some (step it)))) of
        Inl e \<Rightarrow> ((c, it), Inl e)
      | Inr it0 \<Rightarrow>
          (case pull_valid c it0 of
             ((c1, it1), Inl StopIteration) \<Rightarrow>
               ((c1, it1\<lparr>closed := closed it1 + 1\<rparr>), Inl StopIteration)
           | ((c1, it1), Inl e) \<Rightarrow> ((c1, it1), Inl e)
           | ((c1, it1), Inr (next_seq, label)) \<Rightarrow>
               ((c1, it1),
                Inr \<lparr> seq_index = pos it1,
                      seq_id = rec_id next_seq,
                      seq_string = rec_seq next_seq,
                      seq_encoded = encode (vocab it1) (rec_seq next_seq),
                      seq_label = label \<rparr>)))"

section \<open>Consuming an iterator\<close>

declare pull_valid.simps [simp del]

text \<open>Every record that \<^verbatim>\<open>__next__\<close> returns shortens what is left of the file,
  so a loop of \<^verbatim>\<open>__next__\<close> calls ends.\<close>

lemma incr_skipped_fields:
  "incr_skipped c it = (c1, it1) \<Longrightarrow>
     iterator it1 = iterator it \<and> step it1 = step it \<and> pos it1 = pos it \<and> start it1 = start it
     \<and> closed it1 = closed it \<and> has_labels it1 = has_labels it
     \<and> label_from_id it1 = label_from_id it \<and> vocab it1 = vocab it"
  by (auto simp add: incr_skipped_def SynchronizedCounter_iadd_def split: skip_counter.splits)

lemma pull_valid_shorter:
  "pull_valid c it = ((c', it'), Inr y) \<Longrightarrow> length (iterator it') < length (iterator it)"
proof (induction c it rule: pull_valid.induct)
  case (1 c it)
  show ?case
  proof (cases "iterator it")
    case Nil
    with "1.prems" show ?thesis by (simp add: pull_valid.simps [of c it])
  next
    case (Cons next_seq rest)
    show ?thesis
    proof (cases "invalid it next_seq")
      case False
      with Cons "1.prems" show ?thesis by (auto simp add: pull_valid.simps [of c it])
    next
      case True
      obtain c1 it1 where i: "incr_skipped c (it\<lparr>iterator := rest\<rparr>) = (c1, it1)"
        by (cases "incr_skipped c (it\<lparr>iterator := rest\<rparr>)")
      from incr_skipped_fields [OF i] have r: "iterator it1 = rest" by simp
      show ?thesis
      proof (cases "consume (iterator it1) (Some (step it1))")
        case (Inl e)
        with Cons True i "1.prems" show ?thesis by (simp add: pull_valid.simps [of c it])
      next
        case (Inr rest')
        with Cons True i "1.prems"
        have "pull_valid c1 (it1\<lparr>iterator := rest', pos := pos it1 + step it1 + 1\<rparr>)
                = ((c', it'), Inr y)"
          by (simp add: pull_valid.simps [of c it])
        from "1.IH" [OF Cons True i [symmetric] Inr this]
        have "length (iterator it') < length rest'" by simp
        moreover from Inr r have "length rest' \<le> length rest"
          by (auto simp add: consume_def split: if_splits)
        ultimately show ?thesis using Cons by simp
      qed
    qed
  qed
qed

lemma ProteinIterator_next_shorter:
  "ProteinIterator_next c it = ((c', it'), Inr x) \<Longrightarrow>
     length (iterator it') < length (iterator it)"
  by (auto simp add: ProteinIterator_next_def consume_def
      split: if_splits sum.splits prod.splits exc.splits dest!: pull_valid_shorter)

text \<open>Consuming an iterator to its end, as \<^verbatim>\<open>for sequence in iterator\<close> or
  \<^verbatim>\<open>list(iterator)\<close> does: \<^verbatim>\<open>__next__\<close> is called until it raises. The result
  is the list of the records returned, the final state, and the exception that ended
  the loop (\<open>StopIteration\<close> at the regular end).\<close>

function exhaust ::
  "int \<Rightarrow> ProteinIterator \<Rightarrow> sequence_tuple list \<times> (int \<times> ProteinIterator) \<times> exc" where
  "exhaust c it =
     (case ProteinIterator_next c it of
        ((c1, it1), Inl e) \<Rightarrow> ([], (c1, it1), e)
      | ((c1, it1), Inr x) \<Rightarrow>
          (case exhaust c1 it1 of (xs, s, e) \<Rightarrow> (x # xs, s, e)))"
  by pat_completeness auto
termination
  by (relation "measure (\<lambda>(c, it). length (iterator it))")
     (auto dest: ProteinIterator_next_shorter [OF sym])

declare exhaust.simps [simp del]

text \<open>A consumer that keeps calling \<^verbatim>\<open>__next__\<close>, whatever it raises: the state
  after \<open>n\<close> calls and what each call returned or raised.\<close>

fun repeat_next ::
  "nat \<Rightarrow> int \<Rightarrow> ProteinIterator \<Rightarrow> (int \<times> ProteinIterator) \<times> (exc + sequence_tuple) list" where
  "repeat_next 0 c it = ((c, it), [])"
| "repeat_next (Suc n) c it =
     (case ProteinIterator_next c it of
        ((c1, it1), r) \<Rightarrow> (case repeat_next n c1 it1 of (s, rs) \<Rightarrow> (s, r # rs)))"

text \<open>The value of the skip counter an iterator writes to: its own integer, or the
  shared counter.\<close>

definition counter_value :: "int \<Rightarrow> ProteinIterator \<Rightarrow> int" where
  "counter_value c it = (case n_skipped it of PlainInt k \<Rightarrow> k | Synchronized \<Rightarrow> c)"

text \<open>A record is rejected when its id is empty, or a label table was supplied and has
  no row for its id.\<close>

definition rejected :: "(string \<times> int) list option \<Rightarrow> SeqRecord \<Rightarrow> bool" where
  "rejected labels' r =
     (rec_id r = [] \<or> (case labels' of None \<Rightarrow> False | Some rows \<Rightarrow> rec_id r \<notin> fst ` set rows))"

text \<open>The record \<^verbatim>\<open>__next__\<close> builds for the record at 0-based place \<open>i\<close> of the
  file.\<close>

definition make_sequence :: "ProteinIterator \<Rightarrow> SeqRecord list \<Rightarrow> nat \<Rightarrow> sequence_tuple" where
  "make_sequence it xs i =
     \<lparr> seq_index = int i + 1,
       seq_id = rec_id (xs ! i),
       seq_string = rec_seq (xs ! i),
       seq_encoded = encode (vocab it) (rec_seq (xs ! i)),
       seq_label = label_from_id it (rec_id (xs ! i)) \<rparr>"

section \<open>The datasets\<close>

text \<open>
  \<^verbatim>\<open>ProteinDataset\<close>: the file (its records), the label table (its rows, after
  \<^verbatim>\<open>pd.read_csv\<close> and the label encoder), the vocabulary and the value of the
  \<^verbatim>\<open>SynchronizedCounter\<close>. \<^verbatim>\<open>ShuffledProteinDataset\<close> inherits from it and adds
  \<^verbatim>\<open>buffer_size\<close>. \<^verbatim>\<open>torch.utils.data.get_worker_info()\<close> is \<open>None\<close> in
  single-process loading and \<open>(num_workers, id)\<close> in a worker.
\<close>

record ProteinDataset =
  ds_file :: "SeqRecord list"
  ds_labels :: "(string \<times> int) list option"
  ds_vocab :: "char \<rightharpoonup> int"
  ds_n_skipped :: int

record ShuffledProteinDataset = ProteinDataset +
  buffer_size :: int

definition ProteinDataset_init :: "SeqRecord list \<Rightarrow> (string \<times> int) list option \<Rightarrow> ProteinDataset" where
  "ProteinDataset_init file' labels' =
     \<lparr> ds_file = file',
       ds_labels = labels',
       ds_vocab = gen_amino_acid_vocab (Some EXTENDED_IUPAC_PROTEIN_ALPHABET),
       ds_n_skipped = 0 \<rparr>"

definition ShuffledProteinDataset_init ::
  "SeqRecord list \<Rightarrow> (string \<times> int) list option \<Rightarrow> int \<Rightarrow> ShuffledProteinDataset" where
  "ShuffledProteinDataset_init file' labels' buffer_size' =
     \<lparr> ds_file = file',
       ds_labels = labels',
       ds_vocab = gen_amino_acid_vocab (Some EXTENDED_IUPAC_PROTEIN_ALPHABET),
       ds_n_skipped = 0,
       buffer_size = buffer_size' \<rparr>"

text \<open>\<^verbatim>\<open>ProteinDataset.__iter__\<close>; \<^verbatim>\<open>ShuffledProteinDataset.__iter__\<close> builds its
  \<^verbatim>\<open>dataset_iter\<close> with the same two calls.\<close>

definition ProteinDataset_iter ::
  "'a ProteinDataset_scheme \<Rightarrow> (int \<times> int) option \<Rightarrow> ProteinIterator" where
  "ProteinDataset_iter self worker_info =
     (case worker_info of
        None \<Rightarrow>
          ProteinIterator_init (ds_file self) (ds_labels self) (ds_vocab self) (PlainInt 0) 1 0
      | Some (num_workers, worker_id) \<Rightarrow>
          ProteinIterator_init (ds_file self) (ds_labels self) (ds_vocab self) Synchronized
            num_workers worker_id)"

text \<open>Iterating over a dataset to the end: the records, the dataset with the value its
  counter has afterwards, the iterator and the exception that ended the loop.\<close>

definition iterate_dataset ::
  "'a ProteinDataset_scheme \<Rightarrow> (int \<times> int) option \<Rightarrow>
     sequence_tuple list \<times> 'a ProteinDataset_scheme \<times> ProteinIterator \<times> exc" where
  "iterate_dataset self worker_info =
     (case exhaust (ds_n_skipped self) (ProteinDataset_iter self worker_info) of
        (ys, (c, it), e) \<Rightarrow> (ys, self\<lparr>ds_n_skipped := c\<rparr>, it, e))"

section \<open>The shuffle buffer: \<^verbatim>\<open>ShuffledProteinDataset.__iter__\<close>\<close>

text \<open>
  The fill phase:
  \<^verbatim>\<open>
  for i in range(self.buffer_size):
      shufbuf.append(next(dataset_iter))
  \<close>
  \<open>fill n\<close> is the loop with \<open>n\<close> rounds to go; it ends early with the exception
  \<^verbatim>\<open>next\<close> raises.
\<close>

fun fill ::
  "nat \<Rightarrow> int \<Rightarrow> ProteinIterator \<Rightarrow> sequence_tuple list \<Rightarrow>
     (int \<times> ProteinIterator) \<times> sequence_tuple list \<times> exc option" where
  "fill 0 c it shufbuf = ((c, it), shufbuf, None)"
| "fill (Suc n) c it shufbuf =
     (case ProteinIterator_next c it of
        ((c1, it1), Inl e) \<Rightarrow> ((c1, it1), shufbuf, Some e)
      | ((c1, it1), Inr item) \<Rightarrow> fill n c1 it1 (shufbuf @ [item]))"

text \<open>
  The steady-state loop:
  \<^verbatim>\<open>
  while True:
      try:
          item = next(dataset_iter)
          evict_idx = np.random.randint(0, self.buffer_size - 1)
          yield shufbuf[evict_idx]
          shufbuf[evict_idx] = item
      except StopIteration:
          break
  \<close>
  The result is the list of the records yielded, the state and the buffer at the end,
  and the exception that leaves the generator, if any: \<open>StopIteration\<close> only ends
  the loop. \<open>k\<close> counts the random draws made so far.
\<close>

function steady ::
  "(nat \<Rightarrow> nat) \<Rightarrow> nat \<Rightarrow> int \<Rightarrow> int \<Rightarrow> ProteinIterator \<Rightarrow> sequence_tuple list \<Rightarrow>
     sequence_tuple list \<times> (int \<times> ProteinIterator) \<times> sequence_tuple list \<times> exc option" where
  "steady g k buffer_size' c it shufbuf =
     (case ProteinIterator_next c it of
        ((c1, it1), Inl StopIteration) \<Rightarrow> ([], (c1, it1), shufbuf, None)
      | ((c1, it1), Inl e) \<Rightarrow> ([], (c1, it1), shufbuf, Some e)
      | ((c1, it1), Inr item) \<Rightarrow>
          (case randint 0 (buffer_size' - 1) (g k) of
             Inl e \<Rightarrow> ([], (c1, it1), shufbuf, Some e)
           | Inr evict_idx \<Rightarrow>
               (case list_item shufbuf evict_idx of
                  Inl e \<Rightarrow> ([], (c1, it1), shufbuf, Some e)
                | Inr evicted \<Rightarrow>
                    (case steady g (Suc k) buffer_size' c1 it1
                            (shufbuf[nat evict_idx := item]) of
                       (ys, s, shufbuf', raised) \<Rightarrow> (evicted # ys, s, shufbuf', raised)))))"
  by pat_completeness auto
termination
  by (relation "measure (\<lambda>(g, k, b, c, it, shufbuf). length (iterator it))")
     (auto dest: ProteinIterator_next_shorter [OF sym])

declare steady.simps [simp del]

text \<open>The drain phase:
  \<^verbatim>\<open>while len(shufbuf) > 0: yield shufbuf.pop()\<close>.\<close>

function drain :: "'a list \<Rightarrow> 'a list" where
  "drain shufbuf = (if length shufbuf > 0 then last shufbuf # drain (butlast shufbuf) else [])"
  by pat_completeness auto
termination
  by (relation "measure length") auto

declare drain.simps [simp del]

text \<open>
  The generator, run until it ends or raises: the records it yields, the dataset
  afterwards (\<^verbatim>\<open>self.buffer_size\<close> is overwritten when the file has fewer records
  than the buffer), the iterator afterwards, and the exception that leaves the
  generator, if any. Closing the generator early (\<^verbatim>\<open>GeneratorExit\<close>) is not modelled.
\<close>

definition ShuffledProteinDataset_iter ::
  "ShuffledProteinDataset \<Rightarrow> (int \<times> int) option \<Rightarrow> (nat \<Rightarrow> nat) \<Rightarrow>
     sequence_tuple list \<times> ShuffledProteinDataset \<times> ProteinIterator \<times> exc option" where
  "ShuffledProteinDataset_iter self worker_info g =
     (case fill (nat (buffer_size self)) (ds_n_skipped self)
             (ProteinDataset_iter self worker_info) [] of
        ((c1, it1), shufbuf, raised) \<Rightarrow>
          (case (case raised of
                   None \<Rightarrow> Inr (buffer_size self)
                 | Some StopIteration \<Rightarrow> Inr (int (length shufbuf))
                 | Some e \<Rightarrow> Inl e) of
             Inl e \<Rightarrow> ([], self\<lparr>ds_n_skipped := c1\<rparr>, it1, Some e)
           | Inr buffer_size' \<Rightarrow>
               (case steady g 0 buffer_size' c1 it1 shufbuf of
                  (ys, (c2, it2), shufbuf2, raised2) \<Rightarrow>
                    (case raised2 of
                       Some e \<Rightarrow>
                         (ys, self\<lparr>ds_n_skipped := c2, buffer_size := buffer_size'\<rparr>, it2, Some e)
                     | None \<Rightarrow>
                         (ys @ drain shufbuf2,
                          self\<lparr>ds_n_skipped := c2, buffer_size := buffer_size'\<rparr>, it2, None)))))"

section \<open>The collator: \<^verbatim>\<open>collate_sequences\<close>\<close>

text \<open>The argument is one record or a list of records; one record becomes a list of
  one (\<^verbatim>\<open>if not isinstance(batch, list): batch = [batch]\<close>).\<close>

datatype batch_arg = Single sequence_tuple | Batch "sequence_tuple list"

definition as_list :: "batch_arg \<Rightarrow> sequence_tuple list" where
  "as_list batch = (case batch of Single seq \<Rightarrow> [seq] | Batch seqs \<Rightarrow> seqs)"

text \<open>
  \<^verbatim>\<open>
  max_len = min_length
  for seq in batch:
      sequence_len = len(seq.encoded)
      if sequence_len > max_len:
          max_len = sequence_len
  \<close>
\<close>

fun find_max_len :: "int \<Rightarrow> sequence_tuple list \<Rightarrow> int" where
  "find_max_len max_len [] = max_len"
| "find_max_len max_len (seq # rest) =
     find_max_len
       (if int (length (seq_encoded seq)) > max_len then int (length (seq_encoded seq))
        else max_len) rest"

text \<open>
  Where a record is placed in its row: \<open>(start, end)\<close> and the number of random
  draws made so far.
  \<^verbatim>\<open>
  if random_padding and len(sequence) < max_len:
      n_zeros = max_len - len(sequence)
      start = np.random.choice(n_zeros + 1)
      end = start + len(sequence)
  else:
      start = 0
      end = len(sequence)
  \<close>
\<close>

definition placement ::
  "bool \<Rightarrow> int \<Rightarrow> nat \<Rightarrow> (nat \<Rightarrow> nat) \<Rightarrow> nat \<Rightarrow> exc + (int \<times> int \<times> nat)" where
  "placement random_padding max_len len g k =
     (if random_padding \<and> int len < max_len then
        (let n_zeros = max_len - int len in
         case choice (n_zeros + 1) (g k) of
           Inl e \<Rightarrow> Inl e
         | Inr first \<Rightarrow> Inr (first, first + int len, Suc k))
      else Inr (0, int len, k))"

text \<open>The loop over \<^verbatim>\<open>enumerate(batch)\<close> from row \<open>i\<close> on:
  \<^verbatim>\<open>sequences[i, start:end] = sequence[:].T\<close>. Row \<open>i\<close> exists, since the matrix
  has one row for each record of the batch.\<close>

fun collate_loop ::
  "(nat \<Rightarrow> nat) \<Rightarrow> nat \<Rightarrow> bool \<Rightarrow> int \<Rightarrow> nat \<Rightarrow> sequence_tuple list \<Rightarrow> int list list \<Rightarrow>
     exc + int list list" where
  "collate_loop g k random_padding max_len i [] matrix = Inr matrix"
| "collate_loop g k random_padding max_len i (seq # rest) matrix =
     (case placement random_padding max_len (length (seq_encoded seq)) g k of
        Inl e \<Rightarrow> Inl e
      | Inr (first, stop, k') \<Rightarrow>
          (case slice_assign (matrix ! i) first stop (seq_encoded seq) of
             Inl e \<Rightarrow> Inl e
           | Inr row \<Rightarrow>
               collate_loop g k' random_padding max_len (Suc i) rest (matrix[i := row])))"

text \<open>
  \<^verbatim>\<open>
  try:
      labels = np.array([b.label for b in batch], dtype=np.int)
      labels = default_collate(labels)
  except (AttributeError, TypeError):
      labels = None
  \<close>
  \<^verbatim>\<open>np.array\<close> raises \<^verbatim>\<open>TypeError\<close> when a label is \<^verbatim>\<open>None\<close>.
\<close>

definition collate_labels :: "sequence_tuple list \<Rightarrow> exc + int list option" where
  "collate_labels batch =
     (if \<exists>b \<in> set batch. seq_label b = None then Inr None
      else map_sum id Some (default_collate (map (\<lambda>b. the (seq_label b)) batch)))"

definition collate_sequences ::
  "batch_arg \<Rightarrow> bool \<Rightarrow> int \<Rightarrow> bool \<Rightarrow> (nat \<Rightarrow> nat) \<Rightarrow> exc + collated_sequences" where
  "collate_sequences batch zero_padding min_length random_padding g =
     (let batch = as_list batch;
          max_len = find_max_len min_length batch;
          n_data = length batch
      in if zero_padding then
           (case np_zeros n_data max_len of
              Inl e \<Rightarrow> Inl e
            | Inr zeros \<Rightarrow>
                (case collate_loop g 0 random_padding max_len 0 batch zeros of
                   Inl e \<Rightarrow> Inl e
                 | Inr filled \<Rightarrow>
                     (case default_collate filled of
                        Inl e \<Rightarrow> Inl e
                      | Inr tensor \<Rightarrow>
                          (case collate_labels batch of
                             Inl e \<Rightarrow> Inl e
                           | Inr labels' \<Rightarrow>
                               Inr \<lparr> indices = map seq_index batch,
                                     ids = map seq_id batch,
                                     sequences = tensor,
                                     labels = labels' \<rparr>))))
         else Inl NotImplementedError)"

section \<open>Notions used in the claims and their proofs\<close>

text \<open>Two states of an iterator with the same configuration: the fields that
  \<^verbatim>\<open>__next__\<close> never writes.\<close>

definition same_config :: "ProteinIterator \<Rightarrow> ProteinIterator \<Rightarrow> bool" where
  "same_config it' it =
     (has_labels it' = has_labels it \<and> label_from_id it' = label_from_id it
      \<and> vocab it' = vocab it \<and> start it' = start it \<and> step it' = step it)"

text \<open>What a run does to the two counters: with a plain integer the shared counter
  keeps its value, and the kind of counter never changes.\<close>

definition counter_frame :: "int \<Rightarrow> ProteinIterator \<Rightarrow> int \<Rightarrow> ProteinIterator \<Rightarrow> bool" where
  "counter_frame c it c' it' =
     (case n_skipped it of
        PlainInt k \<Rightarrow> c' = c \<and> n_skipped it' \<noteq> Synchronized
      | Synchronized \<Rightarrow> n_skipped it' = Synchronized)"

text \<open>\<open>next_pull xs W j it\<close>: the iterator \<open>it\<close> of a worker among \<open>W\<close> over the
  file \<open>xs\<close> is about to read the record at 0-based place \<open>j\<close> in its next call:
  either it is not yet positioned and \<open>j\<close> is its start, or it has read up to
  \<open>j - W\<close>.\<close>

definition next_pull :: "SeqRecord list \<Rightarrow> nat \<Rightarrow> nat \<Rightarrow> ProteinIterator \<Rightarrow> bool" where
  "next_pull xs W j it =
     (0 < W \<and> step it = int W - 1
      \<and> ((pos it = UNINITIALIZED_POS \<and> start it = int j \<and> iterator it = xs)
         \<or> (pos it = int j + 1 - int W \<and> W \<le> j + 1 \<and> iterator it = drop (j + 1 - W) xs)))"

text \<open>The states a run reaches from \<^verbatim>\<open>__init__\<close> with \<open>worker_id \<ge> 0\<close> and
  \<open>num_workers \<ge> 1\<close>.\<close>

definition well_formed :: "ProteinIterator \<Rightarrow> bool" where
  "well_formed it =
     (0 \<le> start it \<and> 0 \<le> step it \<and> (pos it = UNINITIALIZED_POS \<or> 0 \<le> pos it))"

text \<open>Worker \<open>w\<close> of \<open>W\<close> over its own copy of the file, with a counter of its own
  that starts at 0, consumed to the end: the \<^verbatim>\<open>index\<close> values of the records it
  returns, the final value of its skip counter, and the exception that ends the run.\<close>

definition shard_run ::
  "SeqRecord list \<Rightarrow> (string \<times> int) list option \<Rightarrow> (char \<rightharpoonup> int) \<Rightarrow> nat \<Rightarrow> nat \<Rightarrow>
     sequence_tuple list \<times> (int \<times> ProteinIterator) \<times> exc" where
  "shard_run xs labels' aa_vocab W w =
     exhaust 0 (ProteinIterator_init xs labels' aa_vocab (PlainInt 0) (int W) (int w))"

definition shard_indices ::
  "SeqRecord list \<Rightarrow> (string \<times> int) list option \<Rightarrow> (char \<rightharpoonup> int) \<Rightarrow> nat \<Rightarrow> nat \<Rightarrow> int list" where
  "shard_indices xs labels' aa_vocab W w = map seq_index (fst (shard_run xs labels' aa_vocab W w))"

definition shard_skipped ::
  "SeqRecord list \<Rightarrow> (string \<times> int) list option \<Rightarrow> (char \<rightharpoonup> int) \<Rightarrow> nat \<Rightarrow> nat \<Rightarrow> int" where
  "shard_skipped xs labels' aa_vocab W w =
     (case shard_run xs labels' aa_vocab W w of (ys, (c, it), e) \<Rightarrow> counter_value c it)"

text \<open>\<open>placed random_padding max_len g encoded first row\<close>: the row of length
  \<open>max_len\<close> holds \<open>encoded\<close> from offset \<open>first\<close> on and 0 everywhere else;
  the offset is 0 unless random padding is on and the record is shorter than the row,
  and then it is a draw of \<^verbatim>\<open>np.random.choice(n_zeros + 1)\<close>.\<close>

definition placed :: "bool \<Rightarrow> int \<Rightarrow> (nat \<Rightarrow> nat) \<Rightarrow> int list \<Rightarrow> int \<Rightarrow> int list \<Rightarrow> bool" where
  "placed random_padding max_len g encoded first row =
     (0 \<le> first \<and> first + int (length encoded) \<le> max_len
      \<and> row = replicate (nat first) 0 @ encoded
               @ replicate (nat (max_len - first - int (length encoded))) 0
      \<and> (if random_padding \<and> int (length encoded) < max_len
         then \<exists>k. choice (max_len - int (length encoded) + 1) (g k) = Inr first
         else first = 0))"

section \<open>Example inputs\<close>

text \<open>A file of five records, the second with an empty id.\<close>

definition rs5 :: "SeqRecord list" where
  "rs5 = [\<lparr>rec_id = ''a'', rec_seq = ''AC''\<rparr>, \<lparr>rec_id = '''', rec_seq = ''AC''\<rparr>,
          \<lparr>rec_id = ''c'', rec_seq = ''AxC''\<rparr>, \<lparr>rec_id = ''d'', rec_seq = ''D''\<rparr>,
          \<lparr>rec_id = ''e'', rec_seq = ''E''\<rparr>]"

text \<open>An iterator over the empty file, and a file of one record.\<close>

definition it_empty :: ProteinIterator where
  "it_empty = ProteinIterator_init [] None Map.empty (PlainInt 0) 1 0"

definition rs1 :: "SeqRecord list" where
  "rs1 = [\<lparr>rec_id = ''a'', rec_seq = ''AC''\<rparr>]"

text \<open>A file of two records with ids, and the state of the shuffle stage over it with
  a buffer of one record, after the fill phase.\<close>

definition rs2 :: "SeqRecord list" where
  "rs2 = [\<lparr>rec_id = ''a'', rec_seq = ''AC''\<rparr>, \<lparr>rec_id = ''c'', rec_seq = ''AxC''\<rparr>]"



text \<open>Two encoded records of lengths 3 and 5, and a generator whose raw draws are
  all 1.\<close>

definition seqA :: sequence_tuple where
  "seqA = \<lparr>seq_index = 1, seq_id = ''a'', seq_string = ''ACD'', seq_encoded = [1, 2, 3],
            seq_label = None\<rparr>"

definition seqB :: sequence_tuple where
  "seqB = \<lparr>seq_index = 2, seq_id = ''b'', seq_string = ''EFGHI'', seq_encoded = [4, 5, 6, 7, 8],
            seq_label = None\<rparr>"

definition draws_one :: "nat \<Rightarrow> nat" where
  "draws_one k = 1"

section \<open>Case folding\<close>

lemma code_point_inject: "code_point c = code_point d \<Longrightarrow> c = d"
  by (simp add: code_point_def)

lemma code_point_upper:
  "code_point (upper c) =
     (if 97 \<le> code_point c \<and> code_point c \<le> 122 then code_point c - 32 else code_point c)"
  by (auto simp add: upper_def Let_def code_point_def)

lemma code_point_lower:
  "code_point (lower c) =
     (if 65 \<le> code_point c \<and> code_point c \<le> 90 then code_point c + 32 else code_point c)"
  by (auto simp add: lower_def Let_def code_point_def)

lemma upper_lower: "upper (lower c) = upper c"
  by (rule code_point_inject) (simp add: code_point_upper code_point_lower)

lemma lower_upper: "lower (upper c) = lower c"
  by (rule code_point_inject) (auto simp add: code_point_upper code_point_lower)

lemma upper_eq_lower: "upper a = lower b \<Longrightarrow> a = b"
proof (rule code_point_inject)
  assume "upper a = lower b"
  then have "code_point (upper a) = code_point (lower b)" by simp
  then show "code_point a = code_point b"
    by (simp add: code_point_upper code_point_lower split: if_splits; linarith)
qed

lemma upper_eq_iff: "(upper a = upper b) = (lower a = lower b)"
  by (metis upper_lower lower_upper)

lemma upper_or_lower_self: "upper c = c \<or> lower c = c"
  by (auto simp add: upper_def lower_def Let_def)

lemma vocab_loop_snoc:
  "vocab_loop upper lower i (xs @ [x]) d =
     (vocab_loop upper lower i xs d)
       (upper x \<mapsto> i + int (length xs) + 1, lower x \<mapsto> i + int (length xs) + 1)"
  by (induction xs arbitrary: i d) (simp_all add: algebra_simps)

lemma vocab_loop_last:
  "j < length a \<Longrightarrow> key_of (a ! j) c \<Longrightarrow> (\<forall>k. j < k \<and> k < length a \<longrightarrow> \<not> key_of (a ! k) c) \<Longrightarrow>
     vocab_loop upper lower 0 a Map.empty c = Some (int j + 1)"
proof (induction a arbitrary: j rule: rev_induct)
  case Nil
  then show ?case by simp
next
  case (snoc x xs)
  show ?case
  proof (cases "j = length xs")
    case True
    with snoc.prems(2) show ?thesis
      by (auto simp add: vocab_loop_snoc key_of_def)
  next
    case False
    with snoc.prems(1) have j: "j < length xs" by simp
    from snoc.prems(3) j have nk: "\<not> key_of x c"
      by (metis length_append_singleton lessI nth_append_length)
    have "\<forall>k. j < k \<and> k < length xs \<longrightarrow> \<not> key_of (xs ! k) c"
      using snoc.prems(3) by (metis length_append_singleton less_Suc_eq nth_append)
    moreover have "key_of (xs ! j) c" using snoc.prems(2) j by (simp add: nth_append)
    ultimately have "vocab_loop upper lower 0 xs Map.empty c = Some (int j + 1)"
      using snoc.IH j by blast
    with nk show ?thesis by (auto simp add: vocab_loop_snoc key_of_def)
  qed
qed

lemma vocab_loop_dom:
  "dom (vocab_loop upper lower i a d) = dom d \<union> upper ` set a \<union> lower ` set a"
  by (induction a arbitrary: i d) auto

lemma vocab_loop_ran:
  "vocab_loop upper lower i a d c = Some v \<Longrightarrow> d c = Some v \<or> (i < v \<and> v \<le> i + int (length a))"
  by (induction a arbitrary: i d) (fastforce split: if_splits)+

lemma gen_keys:
  assumes "case_distinct a" "i < length a"
  shows "gen_amino_acid_vocab (Some a) (upper (a ! i)) = Some (int i + 1)"
    and "gen_amino_acid_vocab (Some a) (lower (a ! i)) = Some (int i + 1)"
proof -
  have later: "\<not> key_of (a ! k) (upper (a ! i)) \<and> \<not> key_of (a ! k) (lower (a ! i))"
    if "i < k" "k < length a" for k
  proof -
    from assms that have "lower (a ! k) \<noteq> lower (a ! i)"
      by (simp add: case_distinct_def distinct_conv_nth)
    then show ?thesis
      unfolding key_of_def by (metis upper_eq_iff upper_eq_lower)
  qed
  show "gen_amino_acid_vocab (Some a) (upper (a ! i)) = Some (int i + 1)"
    unfolding gen_amino_acid_vocab_def gen_amino_acid_vocab_with_def option.case
    by (rule vocab_loop_last) (use assms later in \<open>auto simp add: key_of_def\<close>)
  show "gen_amino_acid_vocab (Some a) (lower (a ! i)) = Some (int i + 1)"
    unfolding gen_amino_acid_vocab_def gen_amino_acid_vocab_with_def option.case
    by (rule vocab_loop_last) (use assms later in \<open>auto simp add: key_of_def\<close>)
qed

lemma upper_upper: "upper (upper c) = upper c"
  by (rule code_point_inject) (simp add: code_point_upper; linarith)

lemma gen_self:
  assumes "case_distinct a" "i < length a"
  shows "gen_amino_acid_vocab (Some a) (a ! i) = Some (int i + 1)"
  using gen_keys [OF assms] upper_or_lower_self [of "a ! i"] by metis

lemma gen_dom: "dom (gen_amino_acid_vocab (Some a)) = upper ` set a \<union> lower ` set a"
  by (simp add: gen_amino_acid_vocab_def gen_amino_acid_vocab_with_def vocab_loop_dom)

lemma gen_outside:
  assumes "upper c \<notin> upper ` set a"
  shows "gen_amino_acid_vocab (Some a) c = None"
proof -
  have "c \<notin> upper ` set a \<union> lower ` set a"
  proof
    assume "c \<in> upper ` set a \<union> lower ` set a"
    then obtain x where "x \<in> set a" "c = upper x \<or> c = lower x" by blast
    then have "upper c = upper x" by (auto simp add: upper_upper upper_lower)
    with \<open>x \<in> set a\<close> assms show False by blast
  qed
  then show ?thesis using gen_dom [of a] by blast
qed

lemma gen_codes:
  "gen_amino_acid_vocab (Some a) c = Some v \<Longrightarrow> 1 \<le> v \<and> v \<le> int (length a)"
  using vocab_loop_ran [of 0 a Map.empty c v] by (simp add: gen_amino_acid_vocab_def gen_amino_acid_vocab_with_def)

section \<open>One call of \<^verbatim>\<open>__next__\<close> and a full run\<close>

lemma stride_gap:
  fixes W j x :: nat
  assumes "j < x" "x < j + W"
  shows "x mod W \<noteq> j mod W"
proof
  assume "x mod W = j mod W"
  then have "W dvd x - j" using assms(1) by (simp add: mod_eq_dvd_iff_nat)
  moreover have "0 < x - j" "x - j < W" using assms by auto
  ultimately show False by (simp add: nat_dvd_not_less)
qed

lemma upt_split:
  fixes i j k :: nat
  assumes "i \<le> j" "j \<le> k"
  shows "[i..<k] = [i..<j] @ [j..<k]"
  using upt_add_eq_append [OF assms(1), of "k - j"] assms(2) by simp

lemma drop_eq_ConsD:
  assumes "drop j xs = x # rest"
  shows "j < length xs \<and> x = xs ! j \<and> rest = drop (Suc j) xs"
proof -
  from assms have j: "j < length xs" by (cases "j < length xs") auto
  from Cons_nth_drop_Suc [OF j] assms show ?thesis using j by simp
qed

lemma filter_stride_step:
  fixes W j L :: nat
  assumes "0 < W" "j < L"
  shows "[x \<leftarrow> [j..<L]. x mod W = j mod W \<and> P x]
       = (if P j then [j] else []) @ [x \<leftarrow> [j + W..<L]. x mod W = j mod W \<and> P x]"
proof -
  have gap: "[x \<leftarrow> [Suc j..<min (j + W) L]. x mod W = j mod W \<and> P x] = []"
    using stride_gap [of j _ W] by (fastforce simp add: filter_empty_conv)
  have "[j..<L] = j # [Suc j..<min (j + W) L] @ [min (j + W) L..<L]"
    using assms upt_split [of "Suc j" "min (j + W) L" L] by (simp add: upt_conv_Cons)
  moreover have "[x \<leftarrow> [min (j + W) L..<L]. x mod W = j mod W \<and> P x]
      = [x \<leftarrow> [j + W..<L]. x mod W = j mod W \<and> P x]"
    by (cases "j + W \<le> L") (simp_all add: min_def)
  ultimately show ?thesis using gap by simp
qed

lemma incr_skipped_counter:
  "incr_skipped c it = (c1, it1) \<Longrightarrow>
     counter_value c1 it1 = counter_value c it + 1 \<and> counter_frame c it c1 it1"
  by (auto simp add: incr_skipped_def SynchronizedCounter_iadd_def counter_value_def counter_frame_def split: skip_counter.splits)

lemma counter_frame_trans:
  "counter_frame c it c1 it1 \<Longrightarrow> counter_frame c1 it1 c2 it2 \<Longrightarrow> counter_frame c it c2 it2"
  by (auto simp add: counter_frame_def split: skip_counter.splits)

lemma counter_frame_refl: "counter_frame c it c it"
  by (auto simp add: counter_frame_def split: skip_counter.splits)

lemma invalid_cong:
  "has_labels it' = has_labels it \<Longrightarrow> label_from_id it' = label_from_id it \<Longrightarrow>
     invalid it' = invalid it"
  by (auto simp add: invalid_def fun_eq_iff)

lemma pull_valid_Nil:
  "iterator it = [] \<Longrightarrow> pull_valid c it = ((c, it), Inl StopIteration)"
  by (simp add: pull_valid.simps [of c it])

lemma pull_valid_valid:
  "iterator it = x # rest \<Longrightarrow> \<not> invalid it x \<Longrightarrow>
     pull_valid c it = ((c, it\<lparr>iterator := rest\<rparr>), Inr (x, label_from_id it (rec_id x)))"
  by (simp add: pull_valid.simps [of c it])

lemma pull_valid_invalid:
  "iterator it = x # rest \<Longrightarrow> invalid it x \<Longrightarrow> 0 \<le> step it \<Longrightarrow>
     incr_skipped c (it\<lparr>iterator := rest\<rparr>) = (c1, it1) \<Longrightarrow>
     pull_valid c it =
       pull_valid c1 (it1\<lparr>iterator := drop (nat (step it)) rest, pos := pos it + step it + 1\<rparr>)"
  by (frule incr_skipped_fields) (simp add: pull_valid.simps [of c it] consume_def)

lemma pull_valid_spec:
  assumes "0 < W" "step it = int W - 1" "iterator it = drop j xs" "pos it = int j + 1"
    and "pull_valid c it = ((c', it'), r)"
  shows "\<exists>i. j \<le> i \<and> i mod W = j mod W
    \<and> (\<forall>x. j \<le> x \<and> x < i \<and> x mod W = j mod W \<longrightarrow> x < length xs \<and> invalid it (xs ! x))
    \<and> pos it' = int i + 1 \<and> same_config it' it \<and> closed it' = closed it
    \<and> counter_value c' it' = counter_value c it + int (length [x \<leftarrow> [j..<i]. x mod W = j mod W])
    \<and> counter_frame c it c' it'
    \<and> (case r of
         Inl e \<Rightarrow> e = StopIteration \<and> length xs \<le> i \<and> iterator it' = []
       | Inr (next_seq, lab) \<Rightarrow> i < length xs \<and> next_seq = xs ! i \<and> \<not> invalid it next_seq
           \<and> lab = label_from_id it (rec_id next_seq) \<and> iterator it' = drop (Suc i) xs)"
  using assms
proof (induction c it arbitrary: j rule: pull_valid.induct)
  case (1 c it)
  note W = \<open>0 < W\<close> and st = \<open>step it = int W - 1\<close> and itr = \<open>iterator it = drop j xs\<close>
    and p = \<open>pos it = int j + 1\<close> and run = \<open>pull_valid c it = ((c', it'), r)\<close>
  show ?case
  proof (cases "iterator it")
    case Nil
    with itr have "length xs \<le> j" by simp
    moreover from run Nil have "c' = c" "it' = it" "r = Inl StopIteration"
      by (simp_all add: pull_valid_Nil)
    ultimately show ?thesis using Nil p
      by (intro exI [of _ j]) (auto simp add: same_config_def counter_frame_refl)
  next
    case (Cons next_seq rest)
    with itr have j: "j < length xs" and x: "next_seq = xs ! j" and rest: "rest = drop (Suc j) xs"
      using drop_eq_ConsD [of j xs next_seq rest] by simp_all
    show ?thesis
    proof (cases "invalid it next_seq")
      case False
      with run Cons have "c' = c" "it' = it\<lparr>iterator := rest\<rparr>"
        "r = Inr (next_seq, label_from_id it (rec_id next_seq))"
        by (simp_all add: pull_valid_valid)
      then show ?thesis using j x rest p False
        by (intro exI [of _ j])
          (auto simp add: same_config_def counter_frame_def counter_value_def
             split: skip_counter.splits)
    next
      case True
      obtain c1 it1 where i: "incr_skipped c (it\<lparr>iterator := rest\<rparr>) = (c1, it1)"
        by (cases "incr_skipped c (it\<lparr>iterator := rest\<rparr>)")
      note f = incr_skipped_fields [OF i] and cn = incr_skipped_counter [OF i]
      define it2 where
        "it2 = it1\<lparr>iterator := drop (nat (step it)) rest, pos := pos it1 + step it1 + 1\<rparr>"
      from W st have s0: "0 \<le> step it" by simp
      have run2: "pull_valid c1 it2 = ((c', it'), r)"
        using pull_valid_invalid [OF Cons True s0 i] run f by (simp add: it2_def)
      have cons: "consume (iterator it1) (Some (step it1)) = Inr (drop (nat (step it)) rest)"
        using f s0 by (simp add: consume_def)
      have natst: "nat (step it) = W - 1" using st W by simp
      have a1: "step it2 = int W - 1" using f st by (simp add: it2_def)
      have a2: "iterator it2 = drop (j + W) xs"
        using rest W natst by (simp add: it2_def add.commute)
      have a3: "pos it2 = int (j + W) + 1" using p st f by (simp add: it2_def)
      have f2: "closed it2 = closed it" "has_labels it2 = has_labels it"
        "label_from_id it2 = label_from_id it" "vocab it2 = vocab it" "start it2 = start it"
        "step it2 = step it" "n_skipped it2 = n_skipped it1"
        using f by (simp_all add: it2_def)
      from "1.IH" [OF Cons True i [symmetric] cons W, folded it2_def, OF a1 a2 a3 run2]
      obtain i' where i': "j + W \<le> i'" "i' mod W = (j + W) mod W"
        and inv: "\<forall>x. j + W \<le> x \<and> x < i' \<and> x mod W = (j + W) mod W \<longrightarrow>
                    x < length xs \<and> invalid it2 (xs ! x)"
        and rest': "pos it' = int i' + 1" "same_config it' it2" "closed it' = closed it2"
          "counter_value c' it' = counter_value c1 it2
             + int (length [x \<leftarrow> [j + W..<i']. x mod W = (j + W) mod W])"
          "counter_frame c1 it2 c' it'"
          "(case r of
             Inl e \<Rightarrow> e = StopIteration \<and> length xs \<le> i' \<and> iterator it' = []
           | Inr (next_seq, lab) \<Rightarrow> i' < length xs \<and> next_seq = xs ! i' \<and> \<not> invalid it2 next_seq
               \<and> lab = label_from_id it2 (rec_id next_seq) \<and> iterator it' = drop (Suc i') xs)"
        by blast
      have inv_eq: "invalid it2 = invalid it"
        using f2 by (intro invalid_cong) simp_all
      have all: "x < length xs \<and> invalid it (xs ! x)"
        if "j \<le> x" "x < i'" "x mod W = j mod W" for x
      proof (cases "x = j")
        case True
        with j x \<open>invalid it next_seq\<close> show ?thesis by simp
      next
        case False
        with that have "j < x" by simp
        with that(3) stride_gap [of j x W] have "j + W \<le> x" by force
        with that inv inv_eq show ?thesis by simp
      qed
      have cnt: "length [x \<leftarrow> [j..<i']. x mod W = j mod W]
          = Suc (length [x \<leftarrow> [j + W..<i']. x mod W = j mod W])"
        using filter_stride_step [of W j i' "\<lambda>_. True"] W i'(1) by simp
      have cv: "counter_value c1 it2 = counter_value c it + 1"
        using cn f2 by (simp add: counter_value_def)
      have cf: "counter_frame c it c' it'"
        using cn rest'(5) f2 by (auto simp add: counter_frame_def split: skip_counter.splits)
      show ?thesis
      proof (intro exI [of _ i'] conjI)
        show "j \<le> i'" using i' by simp
        show "i' mod W = j mod W" using i' by simp
        show "\<forall>x. j \<le> x \<and> x < i' \<and> x mod W = j mod W \<longrightarrow> x < length xs \<and> invalid it (xs ! x)"
          using all by blast
        show "pos it' = int i' + 1" by fact
        show "same_config it' it" using rest'(2) f2 by (simp add: same_config_def)
        show "closed it' = closed it" using rest'(3) f2 by simp
        show "counter_value c' it' = counter_value c it + int (length [x \<leftarrow> [j..<i']. x mod W = j mod W])"
          using rest'(4) cv cnt by simp
        show "counter_frame c it c' it'" by fact
        show "case r of
               Inl e \<Rightarrow> e = StopIteration \<and> length xs \<le> i' \<and> iterator it' = []
             | Inr (next_seq, lab) \<Rightarrow> i' < length xs \<and> next_seq = xs ! i' \<and> \<not> invalid it next_seq
                 \<and> lab = label_from_id it (rec_id next_seq) \<and> iterator it' = drop (Suc i') xs"
          using rest'(6) inv_eq f2 by (simp split: sum.splits prod.splits)
      qed
    qed
  qed
qed

lemma make_sequence_cong:
  "same_config it' it \<Longrightarrow> make_sequence it' = make_sequence it"
  by (intro ext) (simp add: same_config_def make_sequence_def)

lemma same_config_trans:
  "same_config it2 it1 \<Longrightarrow> same_config it1 it \<Longrightarrow> same_config it2 it"
  by (simp add: same_config_def)

lemma ProteinIterator_next_spec:
  assumes np: "next_pull xs W j it"
    and run: "ProteinIterator_next c it = ((c', it'), r)"
  shows "\<exists>i. j \<le> i \<and> i mod W = j mod W
    \<and> (\<forall>x. j \<le> x \<and> x < i \<and> x mod W = j mod W \<longrightarrow> x < length xs \<and> invalid it (xs ! x))
    \<and> next_pull xs W (i + W) it' \<and> same_config it' it
    \<and> counter_value c' it' = counter_value c it + int (length [x \<leftarrow> [j..<i]. x mod W = j mod W])
    \<and> counter_frame c it c' it'
    \<and> (case r of
         Inl e \<Rightarrow> e = StopIteration \<and> length xs \<le> i \<and> iterator it' = []
           \<and> closed it' = closed it + 1
       | Inr y \<Rightarrow> i < length xs \<and> \<not> invalid it (xs ! i) \<and> y = make_sequence it xs i
           \<and> closed it' = closed it)"
proof -
  from np have W: "0 < W" and st: "step it = int W - 1" by (simp_all add: next_pull_def)
  define it0 where "it0 = it\<lparr>iterator := drop j xs, pos := int j + 1\<rparr>"
  have first: "(if pos it = UNINITIALIZED_POS
            then map_sum id (\<lambda>rest. it\<lparr>iterator := rest, pos := start it + 1\<rparr>)
                   (consume (iterator it) (Some (start it)))
            else map_sum id (\<lambda>rest. it\<lparr>iterator := rest, pos := pos it + step it + 1\<rparr>)
                   (consume (iterator it) (Some (step it)))) = Inr it0"
  proof (cases "pos it = UNINITIALIZED_POS")
    case True
    with np have "start it = int j" "iterator it = xs"
      by (auto simp add: next_pull_def UNINITIALIZED_POS_def)
    with True show ?thesis by (simp add: consume_def it0_def)
  next
    case False
    with np have p: "pos it = int j + 1 - int W" "W \<le> j + 1" "iterator it = drop (j + 1 - W) xs"
      by (auto simp add: next_pull_def)
    have "nat (step it) + (j + 1 - W) = j" using st W p(2) by simp
    then have "drop (nat (step it)) (drop (j + 1 - W) xs) = drop j xs" by simp
    moreover have "pos it + step it + 1 = int j + 1" using p st by simp
    ultimately show ?thesis using False p st W by (simp add: consume_def it0_def)
  qed
  obtain c1 it1 r1 where pv: "pull_valid c it0 = ((c1, it1), r1)"
    by (metis prod.exhaust)
  have a: "step it0 = int W - 1" "iterator it0 = drop j xs" "pos it0 = int j + 1"
    using st by (simp_all add: it0_def)
  have f0: "closed it0 = closed it" "same_config it0 it" "invalid it0 = invalid it"
    "counter_value c it0 = counter_value c it" "n_skipped it0 = n_skipped it"
    "label_from_id it0 = label_from_id it" "vocab it0 = vocab it"
    by (simp_all add: it0_def same_config_def counter_value_def invalid_def fun_eq_iff)
  from pull_valid_spec [OF W a pv]
  obtain i where i: "j \<le> i" "i mod W = j mod W"
    and inv: "\<forall>x. j \<le> x \<and> x < i \<and> x mod W = j mod W \<longrightarrow> x < length xs \<and> invalid it0 (xs ! x)"
    and rest: "pos it1 = int i + 1" "same_config it1 it0" "closed it1 = closed it0"
      "counter_value c1 it1 = counter_value c it0 + int (length [x \<leftarrow> [j..<i]. x mod W = j mod W])"
      "counter_frame c it0 c1 it1"
    and res: "(case r1 of
         Inl e \<Rightarrow> e = StopIteration \<and> length xs \<le> i \<and> iterator it1 = []
       | Inr (next_seq, lab) \<Rightarrow> i < length xs \<and> next_seq = xs ! i \<and> \<not> invalid it0 next_seq
           \<and> lab = label_from_id it0 (rec_id next_seq) \<and> iterator it1 = drop (Suc i) xs)"
    by blast
  have sc: "same_config it1 it" using rest(2) f0(2) by (rule same_config_trans)
  have cf: "counter_frame c it c1 it1"
    using rest(5) f0(5) by (simp add: counter_frame_def)
  show ?thesis
  proof (cases r1)
    case (Inl e)
    with res have e: "e = StopIteration" and L: "length xs \<le> i" and nil: "iterator it1 = []"
      by simp_all
    from run first pv Inl e
    have out: "c' = c1" "it' = it1\<lparr>closed := closed it1 + 1\<rparr>" "r = Inl StopIteration"
      by (auto simp add: ProteinIterator_next_def)
    have "next_pull xs W (i + W) it'"
      using out rest(1) sc W nil L st by (simp add: next_pull_def same_config_def)
    then show ?thesis
      using i inv rest sc cf out f0 nil L
      by (intro exI [of _ i])
        (simp add: same_config_def counter_value_def counter_frame_def split: skip_counter.splits)
  next
    case (Inr pr)
    obtain next_seq lab where pr: "pr = (next_seq, lab)" by (cases pr)
    with res Inr have v: "i < length xs" "next_seq = xs ! i" "\<not> invalid it0 next_seq"
      "lab = label_from_id it0 (rec_id next_seq)" "iterator it1 = drop (Suc i) xs"
      by auto
    from run first pv Inr pr
    have out: "c' = c1" "it' = it1"
      "r = Inr \<lparr> seq_index = pos it1, seq_id = rec_id next_seq, seq_string = rec_seq next_seq,
                 seq_encoded = encode (vocab it1) (rec_seq next_seq), seq_label = lab \<rparr>"
      by (auto simp add: ProteinIterator_next_def)
    have y: "r = Inr (make_sequence it xs i)"
      using out(3) v rest(1) sc f0 by (simp add: make_sequence_def same_config_def)
    have "next_pull xs W (i + W) it'"
      using out rest(1) sc W v(5) st by (simp add: next_pull_def same_config_def)
    then show ?thesis
      using i inv rest sc cf out f0 v y
      by (intro exI [of _ i]) simp
  qed
qed

lemma stride_prefix:
  fixes W j i L :: nat
  assumes inv: "\<forall>x. j \<le> x \<and> x < i \<and> x mod W = j mod W \<longrightarrow> x < L \<and> I x"
  shows "[x \<leftarrow> [j..<min i L]. x mod W = j mod W \<and> \<not> I x] = []"
    and "[x \<leftarrow> [j..<min i L]. x mod W = j mod W \<and> I x] = [x \<leftarrow> [j..<i]. x mod W = j mod W]"
proof -
  show "[x \<leftarrow> [j..<min i L]. x mod W = j mod W \<and> \<not> I x] = []"
    using inv by (auto simp add: filter_empty_conv)
  have "[x \<leftarrow> [j..<min i L]. x mod W = j mod W \<and> I x] = [x \<leftarrow> [j..<min i L]. x mod W = j mod W]"
    using inv by (intro filter_cong) auto
  also have "\<dots> = [x \<leftarrow> [j..<i]. x mod W = j mod W]"
  proof (cases "j \<le> min i L")
    case True
    have "x mod W \<noteq> j mod W" if "min i L \<le> x" "x < i" for x
    proof
      assume "x mod W = j mod W"
      with inv that True have "x < L" by auto
      with that show False by (simp add: min_def split: if_splits)
    qed
    then have "[x \<leftarrow> [min i L..<i]. x mod W = j mod W] = []"
      by (auto simp add: filter_empty_conv)
    then show ?thesis using upt_split [of j "min i L" i] True by simp
  next
    case False
    then have "[x \<leftarrow> [j..<i]. x mod W = j mod W] = []"
      using inv by (auto simp add: filter_empty_conv)
    moreover from False have "min i L \<le> j" by linarith
    then have "[x \<leftarrow> [j..<min i L]. x mod W = j mod W] = []" by simp
    ultimately show ?thesis by (simp only:)
  qed
  finally show "[x \<leftarrow> [j..<min i L]. x mod W = j mod W \<and> I x] = [x \<leftarrow> [j..<i]. x mod W = j mod W]" .
qed

lemma stride_end:
  fixes W j i L :: nat
  assumes "\<forall>x. j \<le> x \<and> x < i \<and> x mod W = j mod W \<longrightarrow> x < L \<and> I x" "L \<le> i"
  shows "[x \<leftarrow> [j..<L]. x mod W = j mod W \<and> \<not> I x] = []"
    and "[x \<leftarrow> [j..<L]. x mod W = j mod W \<and> I x] = [x \<leftarrow> [j..<i]. x mod W = j mod W]"
  using stride_prefix [OF assms(1)] assms(2) by (simp_all add: min_absorb2)

lemma stride_found:
  fixes W j i L :: nat
  assumes W: "0 < W" and ji: "j \<le> i" "i mod W = j mod W"
    and inv: "\<forall>x. j \<le> x \<and> x < i \<and> x mod W = j mod W \<longrightarrow> x < L \<and> I x"
    and i: "i < L" "\<not> I i"
  shows "[x \<leftarrow> [j..<L]. x mod W = j mod W \<and> \<not> I x]
           = i # [x \<leftarrow> [i + W..<L]. x mod W = (i + W) mod W \<and> \<not> I x]"
    and "[x \<leftarrow> [j..<L]. x mod W = j mod W \<and> I x]
           = [x \<leftarrow> [j..<i]. x mod W = j mod W] @ [x \<leftarrow> [i + W..<L]. x mod W = (i + W) mod W \<and> I x]"
proof -
  have split: "[j..<L] = [j..<min i L] @ [i..<L]"
    using upt_split [of j i L] ji(1) i(1) by (simp add: min_def)
  have m: "(i + W) mod W = j mod W" using ji(2) by simp
  show "[x \<leftarrow> [j..<L]. x mod W = j mod W \<and> \<not> I x]
           = i # [x \<leftarrow> [i + W..<L]. x mod W = (i + W) mod W \<and> \<not> I x]"
    using stride_prefix(1) [OF inv] filter_stride_step [OF W i(1), of "\<lambda>x. \<not> I x"] i(2) ji(2)
    by (simp add: split m)
  show "[x \<leftarrow> [j..<L]. x mod W = j mod W \<and> I x]
           = [x \<leftarrow> [j..<i]. x mod W = j mod W] @ [x \<leftarrow> [i + W..<L]. x mod W = (i + W) mod W \<and> I x]"
    using stride_prefix(2) [OF inv] filter_stride_step [OF W i(1), of I] i(2) ji(2)
    by (simp add: split m)
qed

lemma exhaust_spec:
  assumes "next_pull xs W j it" and "exhaust c it = (ys, (c', it'), e)"
  shows "e = StopIteration
    \<and> ys = map (make_sequence it xs) [x \<leftarrow> [j..<length xs]. x mod W = j mod W \<and> \<not> invalid it (xs ! x)]
    \<and> counter_value c' it' = counter_value c it
         + int (length [x \<leftarrow> [j..<length xs]. x mod W = j mod W \<and> invalid it (xs ! x)])
    \<and> counter_frame c it c' it' \<and> same_config it' it
    \<and> closed it' = closed it + 1 \<and> iterator it' = []"
  using assms
proof (induction c it arbitrary: j ys rule: exhaust.induct)
  case (1 c it)
  note np = \<open>next_pull xs W j it\<close> and run = \<open>exhaust c it = (ys, (c', it'), e)\<close>
  from np have W: "0 < W" by (simp add: next_pull_def)
  obtain c1 it1 r where nx: "ProteinIterator_next c it = ((c1, it1), r)"
    by (metis prod.exhaust)
  from ProteinIterator_next_spec [OF np nx]
  obtain i where i: "j \<le> i" "i mod W = j mod W"
    and inv: "\<forall>x. j \<le> x \<and> x < i \<and> x mod W = j mod W \<longrightarrow> x < length xs \<and> invalid it (xs ! x)"
    and np1: "next_pull xs W (i + W) it1" and sc: "same_config it1 it"
    and cv: "counter_value c1 it1 = counter_value c it + int (length [x \<leftarrow> [j..<i]. x mod W = j mod W])"
    and cf: "counter_frame c it c1 it1"
    and res: "(case r of
         Inl e \<Rightarrow> e = StopIteration \<and> length xs \<le> i \<and> iterator it1 = []
           \<and> closed it1 = closed it + 1
       | Inr y \<Rightarrow> i < length xs \<and> \<not> invalid it (xs ! i) \<and> y = make_sequence it xs i
           \<and> closed it1 = closed it)"
    by blast
  show ?case
  proof (cases r)
    case (Inl e1)
    with res have r: "e1 = StopIteration" "length xs \<le> i" "iterator it1 = []"
      "closed it1 = closed it + 1" by simp_all
    from run nx Inl have out: "ys = []" "c' = c1" "it' = it1" "e = e1"
      by (auto simp add: exhaust.simps [of c it])
    show ?thesis
      using stride_end [where I = "\<lambda>x. invalid it (xs ! x)", OF inv r(2)] r out cv cf sc
      by simp
  next
    case (Inr y)
    with res have r: "i < length xs" "\<not> invalid it (xs ! i)" "y = make_sequence it xs i"
      "closed it1 = closed it" by simp_all
    obtain ys1 s1 e1 where ex1: "exhaust c1 it1 = (ys1, s1, e1)"
      by (metis prod.exhaust)
    from run nx Inr ex1 have out: "ys = y # ys1" "s1 = (c', it')" "e = e1"
      by (auto simp add: exhaust.simps [of c it])
    from "1.IH" [OF nx [symmetric] refl Inr np1] ex1 out
    have ih: "e1 = StopIteration"
      "ys1 = map (make_sequence it1 xs)
         [x \<leftarrow> [i + W..<length xs]. x mod W = (i + W) mod W \<and> \<not> invalid it1 (xs ! x)]"
      "counter_value c' it' = counter_value c1 it1
         + int (length [x \<leftarrow> [i + W..<length xs]. x mod W = (i + W) mod W \<and> invalid it1 (xs ! x)])"
      "counter_frame c1 it1 c' it'" "same_config it' it1"
      "closed it' = closed it1 + 1" "iterator it' = []"
      by simp_all
    have inv_eq: "invalid it1 = invalid it"
      using sc by (intro invalid_cong) (simp_all add: same_config_def)
    have mk: "make_sequence it1 = make_sequence it" using sc by (rule make_sequence_cong)
    note sf = stride_found [where I = "\<lambda>x. invalid it (xs ! x)", OF W i inv r(1) r(2)]
    show ?thesis
      using ih out r cv sf inv_eq mk counter_frame_trans [OF cf ih(4)] same_config_trans [OF ih(5) sc]
      by simp
  qed
qed

section \<open>The shard of one worker\<close>

lemma label_from_id_dom:
  "dom (fold (\<lambda>row d. d(fst row \<mapsto> snd row)) rows d0) = dom d0 \<union> fst ` set rows"
  by (induction rows arbitrary: d0) auto

lemma init_fields:
  "n_skipped (ProteinIterator_init xs l v n W w) = n"
  "closed (ProteinIterator_init xs l v n W w) = 0"
  "iterator (ProteinIterator_init xs l v n W w) = xs"
  "vocab (ProteinIterator_init xs l v n W w) = v"
  "has_labels (ProteinIterator_init xs l v n W w) = (l \<noteq> None)"
  "label_from_id (ProteinIterator_init xs l v n W w) =
     (case l of None \<Rightarrow> Map.empty
      | Some rows \<Rightarrow> fold (\<lambda>row d. d(fst row \<mapsto> snd row)) rows Map.empty)"
  "start (ProteinIterator_init xs l v n W w) = w"
  "pos (ProteinIterator_init xs l v n W w) = UNINITIALIZED_POS"
  "step (ProteinIterator_init xs l v n W w) = W - 1"
  by (simp_all add: ProteinIterator_init_def)

lemma label_lookup_None:
  "(fold (\<lambda>row d. d(fst row \<mapsto> snd row)) rows Map.empty k = None) = (k \<notin> fst ` set rows)"
proof -
  have "dom (fold (\<lambda>row d. d(fst row \<mapsto> snd row)) rows Map.empty) = fst ` set rows"
    by (simp add: label_from_id_dom)
  then have "(k \<in> dom (fold (\<lambda>row d. d(fst row \<mapsto> snd row)) rows Map.empty)) = (k \<in> fst ` set rows)"
    by (simp only:)
  then show ?thesis unfolding domIff by blast
qed

lemma invalid_init:
  "invalid (ProteinIterator_init xs l v n W w) r = rejected l r"
  by (cases l) (simp_all add: invalid_def rejected_def init_fields label_lookup_None)

lemma next_pull_init:
  "0 < W \<Longrightarrow> next_pull xs W w (ProteinIterator_init xs l v n (int W) (int w))"
  by (simp add: next_pull_def ProteinIterator_init_def)

lemma shard_run_spec:
  assumes "0 < W"
  shows "\<exists>c it. shard_run xs l v W w =
     (map (make_sequence (ProteinIterator_init xs l v (PlainInt 0) (int W) (int w)) xs)
        [x \<leftarrow> [w..<length xs]. x mod W = w mod W \<and> \<not> rejected l (xs ! x)],
      (c, it), StopIteration)
    \<and> counter_value c it = int (length [x \<leftarrow> [w..<length xs]. x mod W = w mod W \<and> rejected l (xs ! x)])
    \<and> c = 0 \<and> closed it = 1 \<and> iterator it = []"
proof -
  let ?it = "ProteinIterator_init xs l v (PlainInt 0) (int W) (int w)"
  obtain ys c it e where r: "exhaust 0 ?it = (ys, (c, it), e)"
    by (metis prod.exhaust)
  note sp = exhaust_spec [OF next_pull_init [OF assms] r, unfolded invalid_init]
  note e = sp [THEN conjunct1]
  note ys = sp [THEN conjunct2, THEN conjunct1]
  note cv = sp [THEN conjunct2, THEN conjunct2, THEN conjunct1]
  note cf = sp [THEN conjunct2, THEN conjunct2, THEN conjunct2, THEN conjunct1]
  note cl = sp [THEN conjunct2, THEN conjunct2, THEN conjunct2, THEN conjunct2, THEN conjunct2]
  have c0: "counter_value 0 ?it = 0" by (simp add: counter_value_def init_fields)
  from cf have c: "c = 0" by (simp add: counter_frame_def init_fields)
  have run: "shard_run xs l v W w =
     (map (make_sequence ?it xs)
        [x \<leftarrow> [w..<length xs]. x mod W = w mod W \<and> \<not> rejected l (xs ! x)],
      (c, it), StopIteration)"
    unfolding shard_run_def r using e ys by (simp only:)
  have cl1: "closed it = 1" "iterator it = []" using cl by (simp_all add: init_fields)
  have cv0: "counter_value c it
      = int (length [x \<leftarrow> [w..<length xs]. x mod W = w mod W \<and> rejected l (xs ! x)])"
    using cv c0 by (simp only: add_0)
  show ?thesis
    by (rule exI [of _ c], rule exI [of _ it]) (intro conjI run cv0 c cl1)
qed

lemma seq_index_make: "seq_index (make_sequence it xs i) = int i + 1"
  by (simp add: make_sequence_def)

lemma shard_indices_eq:
  assumes "0 < W" "w < W"
  shows "shard_indices xs l v W w
       = map (\<lambda>i. int i + 1) [x \<leftarrow> [w..<length xs]. x mod W = w \<and> \<not> rejected l (xs ! x)]"
proof -
  from shard_run_spec [OF assms(1), of xs l v w] obtain c it where
    "shard_run xs l v W w =
     (map (make_sequence (ProteinIterator_init xs l v (PlainInt 0) (int W) (int w)) xs)
        [x \<leftarrow> [w..<length xs]. x mod W = w mod W \<and> \<not> rejected l (xs ! x)],
      (c, it), StopIteration)" by (elim exE conjE)
  then show ?thesis using assms(2)
    by (simp add: shard_indices_def comp_def seq_index_make)
qed

lemma shard_indices_set:
  assumes "0 < W" "w < W"
  shows "set (shard_indices xs l v W w)
       = {int i + 1 | i. i < length xs \<and> i mod W = w \<and> \<not> rejected l (xs ! i)}"
proof -
  have "w \<le> i" if "i mod W = w" for i
    using that mod_less_eq_dividend [of i W] by simp
  then show ?thesis
    unfolding shard_indices_eq [OF assms] by auto
qed

lemma shard_indices_sorted:
  assumes "0 < W" "w < W"
  shows "sorted_wrt (<) (shard_indices xs l v W w)"
proof -
  have "sorted_wrt (<) [x \<leftarrow> [w..<length xs]. x mod W = w \<and> \<not> rejected l (xs ! x)]"
    by (rule sorted_wrt_filter) simp
  then have "sorted_wrt (\<lambda>x y. int x + 1 < int y + 1)
      [x \<leftarrow> [w..<length xs]. x mod W = w \<and> \<not> rejected l (xs ! x)]"
    by (rule sorted_wrt_mono_rel [rotated]) simp
  then show ?thesis
    unfolding shard_indices_eq [OF assms] sorted_wrt_map .
qed

lemma shard_skipped_eq:
  assumes "0 < W" "w < W"
  shows "shard_skipped xs l v W w
       = int (length [x \<leftarrow> [0..<length xs]. x mod W = w \<and> rejected l (xs ! x)])"
proof -
  from shard_run_spec [OF assms(1), of xs l v w] obtain c it where
    r: "shard_run xs l v W w =
     (map (make_sequence (ProteinIterator_init xs l v (PlainInt 0) (int W) (int w)) xs)
        [x \<leftarrow> [w..<length xs]. x mod W = w mod W \<and> \<not> rejected l (xs ! x)],
      (c, it), StopIteration)"
    and cv: "counter_value c it
       = int (length [x \<leftarrow> [w..<length xs]. x mod W = w mod W \<and> rejected l (xs ! x)])"
    by (elim exE conjE)
  have "[x \<leftarrow> [0..<w]. x mod W = w \<and> rejected l (xs ! x)] = []"
    using assms(2) by (auto simp add: filter_empty_conv)
  then have "[x \<leftarrow> [0..<length xs]. x mod W = w \<and> rejected l (xs ! x)]
      = [x \<leftarrow> [w..<length xs]. x mod W = w \<and> rejected l (xs ! x)]"
  proof (cases "w \<le> length xs")
    case True
    assume "[x \<leftarrow> [0..<w]. x mod W = w \<and> rejected l (xs ! x)] = []"
    then show ?thesis using upt_split [of 0 w "length xs"] True by simp
  next
    case False
    then have "[x \<leftarrow> [0..<length xs]. x mod W = w \<and> rejected l (xs ! x)] = []"
      using assms(2) by (auto simp add: filter_empty_conv)
    with False show ?thesis by simp
  qed
  with r cv assms(2) show ?thesis by (simp add: shard_skipped_def)
qed

lemma sum_stride_count:
  fixes W :: nat
  assumes "0 < W"
  shows "(\<Sum>w<W. int (length [x \<leftarrow> [0..<L]. x mod W = w \<and> P x])) = int (length [x \<leftarrow> [0..<L]. P x])"
proof (induction L)
  case 0
  show ?case by simp
next
  case (Suc L)
  have "(\<Sum>w<W. int (length [x \<leftarrow> [0..<Suc L]. x mod W = w \<and> P x]))
      = (\<Sum>w<W. int (length [x \<leftarrow> [0..<L]. x mod W = w \<and> P x])
                + (if w = L mod W then (if P L then 1 else 0) else 0))"
    by (intro sum.cong) auto
  also have "\<dots> = int (length [x \<leftarrow> [0..<L]. P x]) + (if P L then 1 else 0)"
    using assms by (simp add: sum.distrib Suc.IH)
  also have "\<dots> = int (length [x \<leftarrow> [0..<Suc L]. P x])" by simp
  finally show ?case .
qed

lemma length_filter_nth:
  "length [x \<leftarrow> [0..<length xs]. P (xs ! x)] = length (filter P xs)"
proof -
  have "filter P (map ((!) xs) [0..<length xs]) = map ((!) xs) [x \<leftarrow> [0..<length xs]. P (xs ! x)]"
    by (simp add: filter_map comp_def)
  then have "length (filter P (map ((!) xs) [0..<length xs])) = length [x \<leftarrow> [0..<length xs]. P (xs ! x)]"
    by simp
  then show ?thesis by (simp add: map_nth)
qed

lemma filter_from_start:
  fixes W w L :: nat
  assumes "w < W"
  shows "[x \<leftarrow> [w..<L]. x mod W = w \<and> P x] = [x \<leftarrow> [0..<L]. x mod W = w \<and> P x]"
proof (cases "w \<le> L")
  case True
  have "[x \<leftarrow> [0..<w]. x mod W = w \<and> P x] = []"
    using assms by (auto simp add: filter_empty_conv)
  then show ?thesis using upt_split [of 0 w L] True by simp
next
  case False
  then have "[x \<leftarrow> [0..<L]. x mod W = w \<and> P x] = []"
    using assms by (auto simp add: filter_empty_conv)
  with False show ?thesis by simp
qed

lemma exhaust_init:
  assumes W: "0 < W" "w < W"
    and r: "exhaust c (ProteinIterator_init xs l v n (int W) (int w)) = (ys, (c', it'), e)"
  shows "e = StopIteration"
    and "counter_value c' it' = counter_value c (ProteinIterator_init xs l v n (int W) (int w))
          + int (length [x \<leftarrow> [0..<length xs]. x mod W = w \<and> rejected l (xs ! x)])"
    and "counter_frame c (ProteinIterator_init xs l v n (int W) (int w)) c' it'"
proof -
  note sp = exhaust_spec [OF next_pull_init [OF W(1)] r, unfolded invalid_init]
  show "e = StopIteration" using sp by (rule conjunct1)
  have m: "w mod W = w" using W(2) by simp
  from sp [THEN conjunct2, THEN conjunct2, THEN conjunct1]
  show "counter_value c' it' = counter_value c (ProteinIterator_init xs l v n (int W) (int w))
          + int (length [x \<leftarrow> [0..<length xs]. x mod W = w \<and> rejected l (xs ! x)])"
    unfolding m filter_from_start [OF W(2)] .
  from sp [THEN conjunct2, THEN conjunct2, THEN conjunct2, THEN conjunct1]
  show "counter_frame c (ProteinIterator_init xs l v n (int W) (int w)) c' it'" .
qed

lemma plain_counter:
  "counter_frame c it c' it' \<Longrightarrow> n_skipped it = PlainInt k \<Longrightarrow>
     c' = c \<and> n_skipped it' = PlainInt (counter_value c' it')"
  by (cases "n_skipped it'") (simp_all add: counter_frame_def counter_value_def)

lemma shared_counter:
  "counter_frame c it c' it' \<Longrightarrow> n_skipped it = Synchronized \<Longrightarrow>
     n_skipped it' = Synchronized \<and> counter_value c' it' = c'"
  by (simp add: counter_frame_def counter_value_def)

lemma iterate_single:
  fixes ds :: "'a ProteinDataset_scheme"
  shows "ds_n_skipped (fst (snd (iterate_dataset ds None))) = ds_n_skipped ds
   \<and> n_skipped (fst (snd (snd (iterate_dataset ds None))))
       = PlainInt (int (length (filter (rejected (ds_labels ds)) (ds_file ds))))"
proof -
  let ?xs = "ds_file ds" and ?l = "ds_labels ds" and ?v = "ds_vocab ds"
  let ?it = "ProteinIterator_init ?xs ?l ?v (PlainInt 0) (int 1) (int 0)"
  have it: "ProteinDataset_iter ds None = ?it" by (simp add: ProteinDataset_iter_def)
  obtain ys s e where r0: "exhaust (ds_n_skipped ds) ?it = (ys, s, e)"
    by (rule prod_cases3)
  obtain c' it' where s: "s = (c', it')" by (rule prod.exhaust)
  note r = r0 [unfolded s]
  have n0: "n_skipped ?it = PlainInt 0" by (simp add: init_fields)
  have cv: "counter_value c' it'
      = counter_value (ds_n_skipped ds) ?it
        + int (length [x \<leftarrow> [0..<length ?xs]. x mod 1 = 0 \<and> rejected ?l (?xs ! x)])"
    by (rule exhaust_init(2) [OF _ _ r]) simp_all
  have cf: "counter_frame (ds_n_skipped ds) ?it c' it'"
    by (rule exhaust_init(3) [OF _ _ r]) simp_all
  from plain_counter [OF cf n0] have p: "c' = ds_n_skipped ds" "n_skipped it' = PlainInt (counter_value c' it')"
    by simp_all
  have res: "iterate_dataset ds None = (ys, ds\<lparr>ds_n_skipped := c'\<rparr>, it', e)"
    unfolding iterate_dataset_def it r by simp
  have "counter_value (ds_n_skipped ds) ?it = 0" using n0 by (simp add: counter_value_def)
  with cv have c: "counter_value c' it' = int (length (filter (rejected ?l) ?xs))"
    by (simp add: length_filter_nth)
  show ?thesis unfolding res using p c by simp
qed

lemma iterate_worker:
  fixes ds :: "'a ProteinDataset_scheme"
  assumes Ww: "0 < W" "w < W"
  shows "ds_n_skipped (fst (snd (iterate_dataset ds (Some (int W, int w)))))
           = ds_n_skipped ds
             + int (length [i \<leftarrow> [0..<length (ds_file ds)].
                              i mod W = w \<and> rejected (ds_labels ds) (ds_file ds ! i)])
    \<and> n_skipped (fst (snd (snd (iterate_dataset ds (Some (int W, int w)))))) = Synchronized"
proof -
  let ?xs = "ds_file ds" and ?l = "ds_labels ds" and ?v = "ds_vocab ds"
  let ?it = "ProteinIterator_init ?xs ?l ?v Synchronized (int W) (int w)"
  have it: "ProteinDataset_iter ds (Some (int W, int w)) = ?it"
    by (simp add: ProteinDataset_iter_def)
  have n0: "n_skipped ?it = Synchronized" by (simp add: init_fields)
  obtain ys s e where r0: "exhaust (ds_n_skipped ds) ?it = (ys, s, e)"
    by (rule prod_cases3)
  obtain c' it' where s: "s = (c', it')" by (rule prod.exhaust)
  note r = r0 [unfolded s]
  have cv: "counter_value c' it'
      = counter_value (ds_n_skipped ds) ?it
        + int (length [x \<leftarrow> [0..<length ?xs]. x mod W = w \<and> rejected ?l (?xs ! x)])"
    by (rule exhaust_init(2) [OF Ww r])
  have cf: "counter_frame (ds_n_skipped ds) ?it c' it'"
    by (rule exhaust_init(3) [OF Ww r])
  from shared_counter [OF cf n0] have sh: "n_skipped it' = Synchronized" "counter_value c' it' = c'"
    by simp_all
  have "counter_value (ds_n_skipped ds) ?it = ds_n_skipped ds"
    using n0 by (simp add: counter_value_def)
  with cv sh have c: "c' = ds_n_skipped ds
      + int (length [x \<leftarrow> [0..<length ?xs]. x mod W = w \<and> rejected ?l (?xs ! x)])"
    by simp
  have res: "iterate_dataset ds (Some (int W, int w)) = (ys, ds\<lparr>ds_n_skipped := c'\<rparr>, it', e)"
    unfolding iterate_dataset_def it r by simp
  show ?thesis unfolding res using c sh(1) by simp
qed

section \<open>The iterator at the end of the file\<close>

lemma pull_valid_frame:
  "0 \<le> step it \<Longrightarrow> pull_valid c it = ((c', it'), r) \<Longrightarrow>
     pos it \<le> pos it' \<and> step it' = step it \<and> start it' = start it \<and> closed it' = closed it
     \<and> (\<forall>e. r = Inl e \<longrightarrow> e = StopIteration \<and> iterator it' = [])"
proof (induction c it rule: pull_valid.induct)
  case (1 c it)
  show ?case
  proof (cases "iterator it")
    case Nil
    with "1.prems" show ?thesis by (auto simp add: pull_valid_Nil)
  next
    case (Cons next_seq rest)
    show ?thesis
    proof (cases "invalid it next_seq")
      case False
      with Cons "1.prems" show ?thesis by (auto simp add: pull_valid_valid)
    next
      case True
      obtain c1 it1 where i: "incr_skipped c (it\<lparr>iterator := rest\<rparr>) = (c1, it1)"
        by (cases "incr_skipped c (it\<lparr>iterator := rest\<rparr>)")
      note f = incr_skipped_fields [OF i]
      define it2 where
        "it2 = it1\<lparr>iterator := drop (nat (step it)) rest, pos := pos it1 + step it1 + 1\<rparr>"
      have cons: "consume (iterator it1) (Some (step it1)) = Inr (drop (nat (step it)) rest)"
        using f "1.prems"(1) by (simp add: consume_def)
      have run2: "pull_valid c1 it2 = ((c', it'), r)"
        using pull_valid_invalid [OF Cons True "1.prems"(1) i] "1.prems"(2) f by (simp add: it2_def)
      have s2: "0 \<le> step it2" using f "1.prems"(1) by (simp add: it2_def)
      from "1.IH" [OF Cons True i [symmetric] cons, folded it2_def, OF s2 run2]
      have "pos it2 \<le> pos it'" "step it' = step it2" "start it' = start it2" "closed it' = closed it2"
        "\<forall>e. r = Inl e \<longrightarrow> e = StopIteration \<and> iterator it' = []"
        by simp_all
      moreover have "pos it \<le> pos it2" "step it2 = step it" "start it2 = start it" "closed it2 = closed it"
        using f "1.prems"(1) by (simp_all add: it2_def)
      ultimately show ?thesis by simp
    qed
  qed
qed

lemma ProteinIterator_next_well_formed:
  assumes wf: "well_formed it" and run: "ProteinIterator_next c it = ((c1, it1), r)"
  shows "well_formed it1 \<and> pos it1 \<noteq> UNINITIALIZED_POS
    \<and> (\<forall>e. r = Inl e \<longrightarrow> e = StopIteration \<and> iterator it1 = [] \<and> closed it1 = closed it + 1)"
proof -
  define it0 where "it0 =
    (if pos it = UNINITIALIZED_POS
     then it\<lparr>iterator := drop (nat (start it)) (iterator it), pos := start it + 1\<rparr>
     else it\<lparr>iterator := drop (nat (step it)) (iterator it), pos := pos it + step it + 1\<rparr>)"
  from wf have first: "(if pos it = UNINITIALIZED_POS
            then map_sum id (\<lambda>rest. it\<lparr>iterator := rest, pos := start it + 1\<rparr>)
                   (consume (iterator it) (Some (start it)))
            else map_sum id (\<lambda>rest. it\<lparr>iterator := rest, pos := pos it + step it + 1\<rparr>)
                   (consume (iterator it) (Some (step it)))) = Inr it0"
    by (simp add: well_formed_def consume_def it0_def)
  from wf have f0: "0 \<le> step it0" "0 < pos it0" "start it0 = start it" "step it0 = step it"
    "closed it0 = closed it"
    by (auto simp add: well_formed_def it0_def UNINITIALIZED_POS_def)
  obtain s r1 where pv0: "pull_valid c it0 = (s, r1)" by (rule prod.exhaust)
  obtain c2 it2 where s: "s = (c2, it2)" by (rule prod.exhaust)
  note pv = pv0 [unfolded s]
  note fr = pull_valid_frame [OF f0(1) pv]
  show ?thesis
  proof (cases r1)
    case (Inl e)
    with fr have e: "e = StopIteration" "iterator it2 = []" by simp_all
    from run first pv Inl e have out: "c1 = c2" "it1 = it2\<lparr>closed := closed it2 + 1\<rparr>"
      "r = Inl StopIteration"
      by (auto simp add: ProteinIterator_next_def)
    show ?thesis using out fr f0 e wf
      by (simp add: well_formed_def UNINITIALIZED_POS_def)
  next
    case (Inr pr)
    obtain next_seq lab where pr: "pr = (next_seq, lab)" by (cases pr)
    from run first pv Inr pr have out: "c1 = c2" "it1 = it2" "\<exists>y. r = Inr y"
      by (auto simp add: ProteinIterator_next_def)
    show ?thesis using out fr f0 wf
      by (auto simp add: well_formed_def UNINITIALIZED_POS_def)
  qed
qed

lemma ProteinIterator_next_exhausted:
  assumes wf: "well_formed it" and nil: "iterator it = []"
  shows "\<exists>it1. ProteinIterator_next c it = ((c, it1), Inl StopIteration)
     \<and> iterator it1 = [] \<and> closed it1 = closed it + 1 \<and> well_formed it1"
proof -
  define it0 where "it0 =
    (if pos it = UNINITIALIZED_POS
     then it\<lparr>iterator := [], pos := start it + 1\<rparr>
     else it\<lparr>iterator := [], pos := pos it + step it + 1\<rparr>)"
  from wf nil have first: "(if pos it = UNINITIALIZED_POS
            then map_sum id (\<lambda>rest. it\<lparr>iterator := rest, pos := start it + 1\<rparr>)
                   (consume (iterator it) (Some (start it)))
            else map_sum id (\<lambda>rest. it\<lparr>iterator := rest, pos := pos it + step it + 1\<rparr>)
                   (consume (iterator it) (Some (step it)))) = Inr it0"
    by (simp add: well_formed_def consume_def it0_def)
  have n0: "iterator it0 = []" by (simp add: it0_def)
  have nx: "ProteinIterator_next c it = ((c, it0\<lparr>closed := closed it0 + 1\<rparr>), Inl StopIteration)"
    unfolding ProteinIterator_next_def first by (simp add: pull_valid_Nil [OF n0])
  have wf1: "well_formed (it0\<lparr>closed := closed it0 + 1\<rparr>)"
    using ProteinIterator_next_well_formed [OF wf nx] by (rule conjunct1)
  have cl: "closed (it0\<lparr>closed := closed it0 + 1\<rparr>) = closed it + 1" by (simp add: it0_def)
  have n1: "iterator (it0\<lparr>closed := closed it0 + 1\<rparr>) = []" using n0 by simp
  show ?thesis
    by (rule exI [of _ "it0\<lparr>closed := closed it0 + 1\<rparr>"]) (intro conjI nx n1 cl wf1)
qed

lemma repeat_next_exhausted:
  assumes "well_formed it" "iterator it = []"
  shows "\<exists>it2. repeat_next n c it = ((c, it2), replicate n (Inl StopIteration))
     \<and> closed it2 = closed it + n \<and> iterator it2 = []"
  using assms
proof (induction n arbitrary: it)
  case 0
  then show ?case by simp
next
  case (Suc n)
  from ProteinIterator_next_exhausted [OF Suc.prems, of c]
  obtain it1 where nx: "ProteinIterator_next c it = ((c, it1), Inl StopIteration)"
    and f: "iterator it1 = []" "closed it1 = closed it + 1" "well_formed it1"
    by (elim exE conjE)
  from Suc.IH [OF f(3) f(1)] obtain it2 where
    r: "repeat_next n c it1 = ((c, it2), replicate n (Inl StopIteration))"
    and g: "closed it2 = closed it1 + n" "iterator it2 = []"
    by (elim exE conjE)
  show ?case
    using nx r g f(2) by simp
qed

lemma repeat_next_well_formed:
  "well_formed it \<Longrightarrow> repeat_next m c it = ((c', it'), rs) \<Longrightarrow> well_formed it'"
proof (induction m arbitrary: c it rs)
  case 0
  then show ?case by simp
next
  case (Suc m)
  obtain s r where nx0: "ProteinIterator_next c it = (s, r)" by (rule prod.exhaust)
  obtain c1 it1 where s: "s = (c1, it1)" by (rule prod.exhaust)
  note nx = nx0 [unfolded s]
  from ProteinIterator_next_well_formed [OF Suc.prems(1) nx] have wf1: "well_formed it1" by simp
  obtain s2 rs2 where r2: "repeat_next m c1 it1 = (s2, rs2)" by (rule prod.exhaust)
  from Suc.prems(2) nx r2 have "s2 = (c', it')" by simp
  with r2 Suc.IH [OF wf1] show ?case by simp
qed

lemma well_formed_init:
  "1 \<le> W \<Longrightarrow> 0 \<le> w \<Longrightarrow> well_formed (ProteinIterator_init xs l v n W w)"
  by (simp add: well_formed_def init_fields)

section \<open>The shuffle buffer\<close>

lemma drain_snoc: "drain (xs @ [x]) = x # drain xs"
  by (simp add: drain.simps [of "xs @ [x]"])

lemma drain_rev: "drain shufbuf = rev shufbuf"
  by (induction shufbuf rule: rev_induct) (simp_all add: drain.simps [of "[]"] drain_snoc)

lemma randint_Inr:
  assumes "low < high"
  shows "\<exists>v. randint low high r = Inr v \<and> low \<le> v \<and> v < high"
proof -
  have "r mod nat (high - low) < nat (high - low)" using assms by simp
  then have "int (r mod nat (high - low)) < high - low" by linarith
  then show ?thesis using assms by (simp add: randint_def)
qed

lemma choice_Inr:
  assumes "0 < n"
  shows "\<exists>v. choice n r = Inr v \<and> 0 \<le> v \<and> v < n"
proof -
  have "r mod nat n < nat n" using assms by simp
  then have "int (r mod nat n) < n" by linarith
  then show ?thesis using assms by (simp add: choice_def)
qed

lemma choice_reach: "0 \<le> t \<Longrightarrow> t < n \<Longrightarrow> choice n (nat t) = Inr t"
  by (simp add: choice_def)


lemma list_item_in_range:
  "0 \<le> i \<Longrightarrow> i < int (length xs) \<Longrightarrow> list_item xs i = Inr (xs ! nat i)"
  by (simp add: list_item_def)

lemma exhaust_Inl:
  "ProteinIterator_next c it = ((c1, it1), Inl e) \<Longrightarrow> exhaust c it = ([], (c1, it1), e)"
  by (simp add: exhaust.simps [of c it])

lemma exhaust_Inr:
  "ProteinIterator_next c it = ((c1, it1), Inr x) \<Longrightarrow>
     fst (exhaust c it) = x # fst (exhaust c1 it1)"
  by (simp add: exhaust.simps [of c it] split: prod.splits)

lemma steady_stop:
  "ProteinIterator_next c it = ((c1, it1), Inl StopIteration) \<Longrightarrow>
     steady g k b c it shufbuf = ([], (c1, it1), shufbuf, None)"
  by (simp add: steady.simps [of g k b c it shufbuf])

lemma steady_pull:
  assumes "ProteinIterator_next c it = ((c1, it1), Inr item)"
    and "randint 0 (b - 1) (g k) = Inr evict_idx" "0 \<le> evict_idx" "evict_idx < int (length shufbuf)"
  shows "steady g k b c it shufbuf =
     (case steady g (Suc k) b c1 it1 (shufbuf[nat evict_idx := item]) of
        (ys, s, shufbuf', raised) \<Rightarrow> (shufbuf ! nat evict_idx # ys, s, shufbuf', raised))"
  using assms by (simp add: steady.simps [of g k b c it shufbuf] list_item_in_range)

lemma steady_mset:
  assumes "2 \<le> b" "int (length shufbuf) = b" "well_formed it"
  shows "\<exists>ys s shufbuf'. steady g k b c it shufbuf = (ys, s, shufbuf', None)
     \<and> mset ys + mset shufbuf' = mset shufbuf + mset (fst (exhaust c it))"
  using assms
proof (induction g k b c it shufbuf rule: steady.induct)
  case (1 g k b c it shufbuf)
  obtain s r where nx0: "ProteinIterator_next c it = (s, r)" by (rule prod.exhaust)
  obtain c1 it1 where s: "s = (c1, it1)" by (rule prod.exhaust)
  note nx = nx0 [unfolded s]
  note wf = ProteinIterator_next_well_formed [OF "1.prems"(3) nx]
  show ?case
  proof (cases r)
    case (Inl e)
    with wf have "e = StopIteration" by simp
    with nx Inl have n: "ProteinIterator_next c it = ((c1, it1), Inl StopIteration)" by simp
    show ?thesis
      by (simp add: steady_stop [OF n] exhaust_Inl [OF n])
  next
    case (Inr item)
    with nx have n: "ProteinIterator_next c it = ((c1, it1), Inr item)" by simp
    from "1.prems"(1) have "0 < b - 1" by simp
    from randint_Inr [OF this, of "g k"] obtain idx where
      rd: "randint 0 (b - 1) (g k) = Inr idx" and idx: "0 \<le> idx" "idx < b - 1"
      by (elim exE conjE)
    from idx "1.prems"(2) have lt: "idx < int (length shufbuf)" by simp
    then have ltn: "nat idx < length shufbuf" using idx(1) by simp
    have li: "list_item shufbuf idx = Inr (shufbuf ! nat idx)"
      using idx(1) lt by (rule list_item_in_range)
    have len: "int (length (shufbuf[nat idx := item])) = b" using "1.prems"(2) by simp
    from wf have wf1: "well_formed it1" by simp
    from "1.IH" [OF nx [symmetric] refl Inr rd li "1.prems"(1) len wf1]
    obtain ys s' shufbuf' where
      st: "steady g (Suc k) b c1 it1 (shufbuf[nat idx := item]) = (ys, s', shufbuf', None)"
      and ms: "mset ys + mset shufbuf' = mset (shufbuf[nat idx := item]) + mset (fst (exhaust c1 it1))"
      by auto
    have "mset (shufbuf[nat idx := item]) + {#shufbuf ! nat idx#} = add_mset item (mset shufbuf)"
      using ltn by (simp add: mset_update)
    with ms have "mset (shufbuf ! nat idx # ys) + mset shufbuf'
        = mset shufbuf + mset (item # fst (exhaust c1 it1))"
      by (simp add: union_ac)
    then show ?thesis
      using steady_pull [where g = g and k = k, OF n rd idx(1) lt] st exhaust_Inr [OF n] by simp
  qed
qed

lemma exhaust_exhausted:
  assumes "well_formed it" "iterator it = []"
  shows "fst (exhaust c it) = []"
proof -
  from ProteinIterator_next_exhausted [OF assms, of c] obtain it1 where
    "ProteinIterator_next c it = ((c, it1), Inl StopIteration)" by (elim exE conjE)
  then show ?thesis by (simp add: exhaust_Inl)
qed

lemma fill_spec:
  assumes "well_formed it" "fill n c it shufbuf = ((c1, it1), shufbuf1, raised)"
  shows "well_formed it1 \<and> shufbuf1 @ fst (exhaust c1 it1) = shufbuf @ fst (exhaust c it)
     \<and> (raised = None \<and> length shufbuf1 = length shufbuf + n
        \<or> raised = Some StopIteration \<and> iterator it1 = [])"
  using assms
proof (induction n arbitrary: c it shufbuf)
  case 0
  then show ?case by simp
next
  case (Suc n)
  obtain s r where nx0: "ProteinIterator_next c it = (s, r)" by (rule prod.exhaust)
  obtain c2 it2 where s: "s = (c2, it2)" by (rule prod.exhaust)
  note nx = nx0 [unfolded s]
  note wf = ProteinIterator_next_well_formed [OF Suc.prems(1) nx]
  show ?case
  proof (cases r)
    case (Inl e)
    with wf have e: "e = StopIteration" "iterator it2 = []" "well_formed it2" by simp_all
    from Suc.prems(2) nx Inl e have out: "c1 = c2" "it1 = it2" "shufbuf1 = shufbuf"
      "raised = Some StopIteration" by simp_all
    from nx Inl e have "fst (exhaust c it) = []" by (simp add: exhaust_Inl)
    moreover have "fst (exhaust c2 it2) = []" using e(3) e(2) by (rule exhaust_exhausted)
    ultimately show ?thesis using out e by simp
  next
    case (Inr item)
    with nx have n: "ProteinIterator_next c it = ((c2, it2), Inr item)" by simp
    from wf have wf2: "well_formed it2" by simp
    from Suc.prems(2) n have "fill n c2 it2 (shufbuf @ [item]) = ((c1, it1), shufbuf1, raised)"
      by simp
    from Suc.IH [OF wf2 this] show ?thesis
      by (auto simp add: exhaust_Inr [OF n])
  qed
qed

lemma well_formed_dataset_iter:
  assumes "wi = None \<or> (\<exists>W w. wi = Some (W, w) \<and> 1 \<le> W \<and> 0 \<le> w)"
  shows "well_formed (ProteinDataset_iter ds wi)"
  using assms by (auto simp add: ProteinDataset_iter_def well_formed_init)

section \<open>The collator\<close>

lemma find_max_len_eq:
  "find_max_len m batch =
     (if batch = [] then m
      else max m (Max ((\<lambda>s. int (length (seq_encoded s))) ` set batch)))"
proof (induction batch arbitrary: m)
  case Nil
  show ?case by simp
next
  case (Cons seq rest)
  let ?n = "int (length (seq_encoded seq))"
  have step: "find_max_len m (seq # rest) = find_max_len (max m ?n) rest"
    by (simp add: max_def)
  show ?case
    unfolding step Cons.IH by (simp add: max.assoc)
qed

lemma find_max_len_ge:
  "m \<le> find_max_len m batch"
  "s \<in> set batch \<Longrightarrow> int (length (seq_encoded s)) \<le> find_max_len m batch"
  by (auto simp add: find_max_len_eq max.coboundedI2)

lemma placement_spec:
  assumes "int len \<le> max_len"
  shows "\<exists>first k'. placement rp max_len len g k = Inr (first, first + int len, k')
     \<and> 0 \<le> first \<and> first + int len \<le> max_len
     \<and> (if rp \<and> int len < max_len
        then choice (max_len - int len + 1) (g k) = Inr first
        else first = 0)"
proof (cases "rp \<and> int len < max_len")
  case True
  then have "0 < max_len - int len + 1" by simp
  from choice_Inr [OF this, of "g k"] obtain v where
    "choice (max_len - int len + 1) (g k) = Inr v" "0 \<le> v" "v < max_len - int len + 1"
    by (elim exE conjE)
  with True show ?thesis by (simp add: placement_def)
next
  case False
  with assms show ?thesis by (auto simp add: placement_def)
qed

lemma slice_assign_zeros:
  assumes "0 \<le> first" "first + int (length vals) \<le> max_len"
  shows "slice_assign (replicate (nat max_len) 0) first (first + int (length vals)) vals
       = Inr (replicate (nat first) 0 @ vals
              @ replicate (nat (max_len - first - int (length vals))) 0)"
proof -
  have "min (nat max_len) (nat first) = nat first" using assms by simp
  moreover have "nat max_len - nat (first + int (length vals))
      = nat (max_len - first - int (length vals))" using assms by simp
  ultimately show ?thesis using assms by (simp add: slice_assign_def)
qed

lemma collate_loop_spec:
  assumes "length matrix = i + length batch"
    and "\<forall>r<length batch. matrix ! (i + r) = replicate (nat max_len) 0"
    and "\<forall>s\<in>set batch. int (length (seq_encoded s)) \<le> max_len"
  shows "\<exists>filled. collate_loop g k rp max_len i batch matrix = Inr filled
     \<and> length filled = length matrix
     \<and> (\<forall>r<i. filled ! r = matrix ! r)
     \<and> (\<forall>r<length batch. \<exists>first.
           placed rp max_len g (seq_encoded (batch ! r)) first (filled ! (i + r)))"
  using assms
proof (induction batch arbitrary: k i matrix)
  case Nil
  then show ?case by simp
next
  case (Cons seq rest)
  let ?enc = "seq_encoded seq"
  from Cons.prems(3) have le: "int (length ?enc) \<le> max_len" by simp
  from placement_spec [OF le, of rp g k] obtain first k' where
    pl: "placement rp max_len (length ?enc) g k = Inr (first, first + int (length ?enc), k')"
    and f: "0 \<le> first" "first + int (length ?enc) \<le> max_len"
    and ch: "if rp \<and> int (length ?enc) < max_len
        then choice (max_len - int (length ?enc) + 1) (g k) = Inr first
        else first = 0"
    by (elim exE conjE)
  define row where "row = replicate (nat first) 0 @ ?enc
      @ replicate (nat (max_len - first - int (length ?enc))) 0"
  from Cons.prems(2) have z: "matrix ! i = replicate (nat max_len) 0" by force
  have sl: "slice_assign (matrix ! i) first (first + int (length ?enc)) ?enc = Inr row"
    unfolding z row_def using f by (rule slice_assign_zeros)
  have pr: "placed rp max_len g ?enc first row"
    using f ch by (auto simp add: placed_def row_def)
  have step: "collate_loop g k rp max_len i (seq # rest) matrix
      = collate_loop g k' rp max_len (Suc i) rest (matrix[i := row])"
    by (simp add: pl sl)
  have a1: "length (matrix[i := row]) = Suc i + length rest" using Cons.prems(1) by simp
  have a2: "\<forall>r<length rest. (matrix[i := row]) ! (Suc i + r) = replicate (nat max_len) 0"
  proof (intro allI impI)
    fix r assume "r < length rest"
    then have "matrix ! (i + Suc r) = replicate (nat max_len) 0"
      using Cons.prems(2) [rule_format, of "Suc r"] by simp
    then show "(matrix[i := row]) ! (Suc i + r) = replicate (nat max_len) 0" by simp
  qed
  have a3: "\<forall>s\<in>set rest. int (length (seq_encoded s)) \<le> max_len" using Cons.prems(3) by simp
  from Cons.IH [OF a1 a2 a3, of k'] obtain filled where
    r: "collate_loop g k' rp max_len (Suc i) rest (matrix[i := row]) = Inr filled"
    and len: "length filled = length (matrix[i := row])"
    and keep: "\<forall>r<Suc i. filled ! r = (matrix[i := row]) ! r"
    and rows: "\<forall>r<length rest. \<exists>first.
           placed rp max_len g (seq_encoded (rest ! r)) first (filled ! (Suc i + r))"
    by (elim exE conjE)
  have i: "i < length matrix" using Cons.prems(1) by simp
  from keep i have fi: "filled ! i = row" by simp
  have all: "\<exists>first. placed rp max_len g (seq_encoded ((seq # rest) ! r)) first (filled ! (i + r))"
    if "r < length (seq # rest)" for r
  proof (cases r)
    case 0
    with pr fi show ?thesis by auto
  next
    case (Suc r')
    with that rows show ?thesis by simp
  qed
  show ?case
    unfolding step using r len keep all by (intro exI [of _ filled]) auto
qed

lemma default_collate_nonempty: "xs \<noteq> [] \<Longrightarrow> default_collate xs = Inr xs"
  by (cases xs) (simp_all add: default_collate_def)

lemma collate_labels_nonempty:
  "batch \<noteq> [] \<Longrightarrow> \<exists>labs. collate_labels batch = Inr labs"
  by (simp add: collate_labels_def default_collate_nonempty)

lemma placed_length:
  "placed rp max_len g enc first row \<Longrightarrow> length row = nat max_len"
  by (auto simp add: placed_def)

lemma collate_nonempty:
  assumes ne: "as_list batch \<noteq> []"
  shows "\<exists>out. collate_sequences batch True ml rp g = Inr out
     \<and> indices out = map seq_index (as_list batch) \<and> ids out = map seq_id (as_list batch)
     \<and> length (sequences out) = length (as_list batch)
     \<and> (\<forall>i<length (as_list batch). \<exists>first.
          placed rp (find_max_len ml (as_list batch)) g (seq_encoded (as_list batch ! i)) first
            (sequences out ! i))"
proof -
  let ?b = "as_list batch" and ?M = "find_max_len ml (as_list batch)"
  let ?Z = "replicate (length ?b) (replicate (nat ?M) (0::int))"
  from ne obtain s where s: "s \<in> set ?b" by (cases ?b) auto
  have M0: "0 \<le> ?M" using find_max_len_ge(2) [OF s, of ml] by simp
  have z: "np_zeros (length ?b) ?M = Inr ?Z" using M0 by (simp add: np_zeros_def)
  have a1: "length ?Z = 0 + length ?b" by simp
  have a2: "\<forall>r<length ?b. ?Z ! (0 + r) = replicate (nat ?M) 0" by simp
  have a3: "\<forall>s\<in>set ?b. int (length (seq_encoded s)) \<le> ?M" by (simp add: find_max_len_ge(2))
  from collate_loop_spec [OF a1 a2 a3, of g 0 rp] obtain filled where
    l: "collate_loop g 0 rp ?M 0 ?b ?Z = Inr filled" and len: "length filled = length ?Z"
    and rows: "\<forall>r<length ?b. \<exists>first.
           placed rp ?M g (seq_encoded (?b ! r)) first (filled ! (0 + r))"
    by (elim exE conjE)
  from len ne have "filled \<noteq> []" by auto
  then have d: "default_collate filled = Inr filled" by (rule default_collate_nonempty)
  from collate_labels_nonempty [OF ne] obtain labs where lb: "collate_labels ?b = Inr labs" ..
  have res: "collate_sequences batch True ml rp g
      = Inr \<lparr> indices = map seq_index ?b, ids = map seq_id ?b, sequences = filled, labels = labs \<rparr>"
    by (simp add: collate_sequences_def Let_def z l d lb)
  show ?thesis unfolding res using len rows by simp
qed

lemma collate_empty:
  assumes "as_list batch = []"
  shows "collate_sequences batch True ml rp g = Inl (if ml < 0 then ValueError else IndexError)"
  using assms by (simp add: collate_sequences_def Let_def np_zeros_def default_collate_def)

lemma collate_unpadded:
  "collate_sequences batch False ml rp g = Inl NotImplementedError"
  by (simp add: collate_sequences_def Let_def)

section \<open>Claims about the vocabulary\<close>

text \<open>
  C8, for alphabets of ASCII characters. For an ASCII alphabet with no repeated letter
  after case folding, the vocabulary gives the upper-case and the lower-case form of
  every alphabet letter the same code; the codes are a bijection from the letters of
  the alphabet onto \<open>[1, |alphabet|]\<close>; code 0 is never assigned; and a symbol that
  is neither the upper-case nor the lower-case form of an alphabet letter is encoded
  to 0 by the per-character lookup of \<^verbatim>\<open>ProteinIterator.__next__\<close>.
\<close>

theorem gen_amino_acid_vocab_bijection:
  assumes "\<forall>c \<in> set alphabet. is_ascii c" and "case_distinct alphabet"
  shows "(\<forall>aa \<in> set alphabet.
            gen_amino_acid_vocab (Some alphabet) (upper aa) = gen_amino_acid_vocab (Some alphabet) (lower aa)
          \<and> gen_amino_acid_vocab (Some alphabet) (upper aa) \<noteq> None)
       \<and> bij_betw (\<lambda>aa. dict_get (gen_amino_acid_vocab (Some alphabet)) aa 0)
            (set alphabet) {1 .. int (length alphabet)}
       \<and> 0 \<notin> ran (gen_amino_acid_vocab (Some alphabet))
       \<and> (\<forall>s k. k < length s \<and> s ! k \<notin> upper ` set alphabet \<union> lower ` set alphabet \<longrightarrow>
            encode (gen_amino_acid_vocab (Some alphabet)) s ! k = 0)"
proof (intro conjI)
  note cd = assms(2)
  let ?V = "gen_amino_acid_vocab (Some alphabet)"
  let ?f = "\<lambda>aa. dict_get ?V aa 0"
  show "\<forall>aa \<in> set alphabet. ?V (upper aa) = ?V (lower aa) \<and> ?V (upper aa) \<noteq> None"
    using gen_keys [OF cd] by (auto simp add: in_set_conv_nth)
  have f: "?f (alphabet ! i) = int i + 1" if "i < length alphabet" for i
    using gen_self [OF cd that] by (simp add: dict_get_def)
  have "inj_on ?f (set alphabet)"
  proof (rule inj_onI)
    fix x y assume "x \<in> set alphabet" "y \<in> set alphabet" "?f x = ?f y"
    then obtain i j where "i < length alphabet" "x = alphabet ! i"
      "j < length alphabet" "y = alphabet ! j"
      by (metis in_set_conv_nth)
    with \<open>?f x = ?f y\<close> f show "x = y" by simp
  qed
  moreover have "?f ` set alphabet = {1 .. int (length alphabet)}"
  proof (rule set_eqI)
    fix v
    show "v \<in> ?f ` set alphabet \<longleftrightarrow> v \<in> {1 .. int (length alphabet)}"
    proof
      assume "v \<in> ?f ` set alphabet"
      then obtain i where "i < length alphabet" "v = ?f (alphabet ! i)"
        by (auto simp add: in_set_conv_nth)
      with f show "v \<in> {1 .. int (length alphabet)}" by simp
    next
      assume v: "v \<in> {1 .. int (length alphabet)}"
      then have "nat (v - 1) < length alphabet" by auto
      moreover from this v have "?f (alphabet ! nat (v - 1)) = v" by (simp add: f)
      ultimately show "v \<in> ?f ` set alphabet"
        by (metis image_eqI nth_mem)
    qed
  qed
  ultimately show "bij_betw ?f (set alphabet) {1 .. int (length alphabet)}"
    by (simp add: bij_betw_def)
  show "0 \<notin> ran ?V"
    using gen_codes [of alphabet] by (fastforce simp add: ran_def)
  have "?V c = None" if "c \<notin> upper ` set alphabet \<union> lower ` set alphabet" for c
    using that gen_dom [of alphabet] by blast
  then show "\<forall>s k. k < length s \<and> s ! k \<notin> upper ` set alphabet \<union> lower ` set alphabet \<longrightarrow>
      encode ?V s ! k = 0"
    by (simp add: encode_def dict_get_def)
qed

theorem gen_amino_acid_vocab_bijection_witness:
  "is_ascii (CHR ''A'') \<and> is_ascii (CHR ''B'')
   \<and> case_distinct ''AB''
   \<and> gen_amino_acid_vocab (Some ''AB'') (CHR ''a'') = gen_amino_acid_vocab (Some ''AB'') (CHR ''A'')
   \<and> bij_betw (\<lambda>aa. dict_get (gen_amino_acid_vocab (Some ''AB'')) aa 0) (set ''AB'') {1 .. 2}
   \<and> encode (gen_amino_acid_vocab (Some ''AB'')) ''AxB'' ! 1 = 0"
proof -
  have a: "\<forall>c \<in> set ''AB''. is_ascii c" by (simp add: is_ascii_def)
  have d: "case_distinct ''AB''" by code_simp
  have u: "upper (CHR ''A'') = CHR ''A''" "lower (CHR ''A'') = CHR ''a''"
    "upper (CHR ''B'') = CHR ''B''" "lower (CHR ''B'') = CHR ''b''"
    by code_simp+
  note t = gen_amino_acid_vocab_bijection [OF a d]
  from t [THEN conjunct1] u
  have c1: "gen_amino_acid_vocab (Some ''AB'') (CHR ''a'') = gen_amino_acid_vocab (Some ''AB'') (CHR ''A'')"
    by simp
  from t [THEN conjunct2, THEN conjunct1]
  have c2: "bij_betw (\<lambda>aa. dict_get (gen_amino_acid_vocab (Some ''AB'')) aa 0) (set ''AB'') {1 .. 2}"
    by simp
  have x: "1 < length ''AxB'' \<and> ''AxB'' ! 1 \<notin> upper ` set ''AB'' \<union> lower ` set ''AB''"
    by (simp add: u)
  from t [THEN conjunct2, THEN conjunct2, THEN conjunct2, rule_format, OF x]
  have c3: "encode (gen_amino_acid_vocab (Some ''AB'')) ''AxB'' ! 1 = 0" .
  from a have a': "is_ascii (CHR ''A'')" "is_ascii (CHR ''B'')" by simp_all
  show ?thesis using a' d c1 c2 c3 by (intro conjI)
qed

text \<open>
  C8 as stated fails beyond ASCII. The alphabet of the dotless small i and the
  capital I has no repeated letter after case folding (their lower-case forms, and
  their \<^verbatim>\<open>str.casefold()\<close>, are the dotless i and the small i), but both letters
  have the capital I as upper-case form: the second letter overwrites that key, and the
  vocabulary \<open>{I: 2, dotless i: 1, i: 2}\<close> gives the upper-case form of the dotless
  i the code 2 and its lower-case form the code 1.
\<close>

theorem dotless_i_forms_differ:
  "distinct (map lower_i [Dotless_i, Capital_I])
   \<and> gen_amino_acid_vocab_with upper_i lower_i [Dotless_i, Capital_I] (upper_i Dotless_i) = Some 2
   \<and> gen_amino_acid_vocab_with upper_i lower_i [Dotless_i, Capital_I] (lower_i Dotless_i) = Some 1
   \<and> gen_amino_acid_vocab_with upper_i lower_i [Dotless_i, Capital_I] Small_i = Some 2"
  by (simp add: gen_amino_acid_vocab_with_def)

text \<open>
  C7, as the code has it. \<^verbatim>\<open>gen_amino_acid_vocab\<close> has no check for repeated
  letters: for every alphabet it returns a dict whose keys are the upper-case and
  lower-case forms of the letters, and a key written at several positions keeps the
  code of the last one, \<open>1 +\<close> the index of the last position that writes it.
\<close>

theorem gen_amino_acid_vocab_last_wins:
  "dom (gen_amino_acid_vocab (Some alphabet)) = upper ` set alphabet \<union> lower ` set alphabet
   \<and> (\<forall>j c. j < length alphabet \<and> (upper (alphabet ! j) = c \<or> lower (alphabet ! j) = c)
         \<and> (\<forall>k. j < k \<and> k < length alphabet \<longrightarrow> upper (alphabet ! k) \<noteq> c \<and> lower (alphabet ! k) \<noteq> c)
       \<longrightarrow> gen_amino_acid_vocab (Some alphabet) c = Some (int j + 1))"
  using vocab_loop_last [of _ alphabet] gen_dom [of alphabet]
  by (simp add: gen_amino_acid_vocab_def gen_amino_acid_vocab_with_def key_of_def)

text \<open>
  C7 as stated fails: the alphabet \<open>AA\<close> has a repeated letter, and the function
  returns the dict \<open>{A: 2, a: 2}\<close>, in which the code 1 of the first letter has been
  overwritten.
\<close>

theorem gen_amino_acid_vocab_overwrites:
  "\<not> case_distinct ''AA''
   \<and> gen_amino_acid_vocab (Some ''AA'') (CHR ''A'') = Some 2
   \<and> gen_amino_acid_vocab (Some ''AA'') (CHR ''a'') = Some 2
   \<and> dom (gen_amino_acid_vocab (Some ''AA'')) = {CHR ''A'', CHR ''a''}"
proof -
  have u: "upper (CHR ''A'') = CHR ''A''" "lower (CHR ''A'') = CHR ''a''"
    by code_simp+
  show ?thesis by (auto simp add: gen_dom case_distinct_def gen_amino_acid_vocab_def gen_amino_acid_vocab_with_def u)
qed

theorem gen_amino_acid_vocab_last_wins_witness:
  "gen_amino_acid_vocab (Some ''ABa'') (CHR ''A'') = Some 3
 \<and> gen_amino_acid_vocab (Some ''ABa'') (CHR ''b'') = Some 2"
proof -
  have u: "upper (CHR ''A'') = CHR ''A''" "lower (CHR ''A'') = CHR ''a''"
     "upper (CHR ''a'') = CHR ''A''" "lower (CHR ''a'') = CHR ''a''"
     "upper (CHR ''B'') = CHR ''B''" "lower (CHR ''B'') = CHR ''b''"
    by code_simp+
  have n: "\<And>k::nat. (2 < k \<and> k < 3) = False" "\<And>k::nat. (Suc 0 < k \<and> k < 3) = (k = 2)" by auto
  from gen_amino_acid_vocab_last_wins [of "''ABa''"] 
  have a: "\<And>j c. j < length ''ABa'' \<and> (upper (''ABa'' ! j) = c \<or> lower (''ABa'' ! j) = c)
         \<and> (\<forall>k. j < k \<and> k < length ''ABa'' \<longrightarrow> upper (''ABa'' ! k) \<noteq> c \<and> lower (''ABa'' ! k) \<noteq> c)
       \<longrightarrow> gen_amino_acid_vocab (Some ''ABa'') c = Some (int j + 1)" by blast
  from a [of 2 "CHR ''A''"] a [of 1 "CHR ''b''"] show ?thesis
    by (simp add: u n)
qed

section \<open>Claims about the sharded iterator\<close>

text \<open>
  C1. For every file \<open>xs\<close> and every worker count \<open>W \<ge> 1\<close>, the \<^verbatim>\<open>index\<close> values
  that the workers \<open>0, \<dots>, W - 1\<close> return (each over its own copy of the file,
  consumed to the end) are strictly increasing within each worker, pairwise disjoint
  between workers, and their union is the set of indices a single iterator with
  \<open>W = 1\<close> returns, which is the set of the 1-based places of the records that pass
  the validity filter; every run ends with \<open>StopIteration\<close>. Rejected records,
  which trigger the skip loop, are covered.
\<close>

theorem shard_indices_partition:
  assumes "1 \<le> W"
  shows "(\<forall>w<W. sorted_wrt (<) (shard_indices xs l v W w))
    \<and> (\<forall>w<W. \<forall>w'<W. w \<noteq> w' \<longrightarrow>
          set (shard_indices xs l v W w) \<inter> set (shard_indices xs l v W w') = {})
    \<and> (\<Union>w<W. set (shard_indices xs l v W w)) = set (shard_indices xs l v 1 0)
    \<and> set (shard_indices xs l v 1 0) = {int i + 1 | i. i < length xs \<and> \<not> rejected l (xs ! i)}
    \<and> (\<forall>w<W. snd (snd (shard_run xs l v W w)) = StopIteration)"
proof (intro conjI allI impI)
  from assms have W: "0 < W" by simp
  fix w assume w: "w < W"
  show "snd (snd (shard_run xs l v W w)) = StopIteration"
    using shard_run_spec [OF W, of xs l v w] by auto
next
  from assms have W: "0 < W" by simp
  fix w assume w: "w < W"
  show "sorted_wrt (<) (shard_indices xs l v W w)"
    using W w by (rule shard_indices_sorted)
  fix w' assume w': "w' < W" and ne: "w \<noteq> w'"
  show "set (shard_indices xs l v W w) \<inter> set (shard_indices xs l v W w') = {}"
    unfolding shard_indices_set [OF W w] shard_indices_set [OF W w'] using ne by auto
next
  from assms have W: "0 < W" by simp
  have one: "set (shard_indices xs l v 1 0)
      = {int i + 1 | i. i < length xs \<and> \<not> rejected l (xs ! i)}"
    using shard_indices_set [of 1 0 xs l v] by simp
  show "set (shard_indices xs l v 1 0) = {int i + 1 | i. i < length xs \<and> \<not> rejected l (xs ! i)}"
    by (fact one)
  have "(\<Union>w<W. set (shard_indices xs l v W w))
      = (\<Union>w<W. {int i + 1 | i. i < length xs \<and> i mod W = w \<and> \<not> rejected l (xs ! i)})"
    using W by (intro SUP_cong refl) (simp add: shard_indices_set)
  also have "\<dots> = {int i + 1 | i. i < length xs \<and> \<not> rejected l (xs ! i)}"
    using W by auto
  finally show "(\<Union>w<W. set (shard_indices xs l v W w)) = set (shard_indices xs l v 1 0)"
    using one by simp
qed

theorem shard_indices_partition_witness:
  "(1::nat) \<le> 2
   \<and> shard_indices rs5 None Map.empty 2 0 = [1, 3, 5]
   \<and> shard_indices rs5 None Map.empty 2 1 = [4]
   \<and> sorted_wrt (<) (shard_indices rs5 None Map.empty 2 0)
   \<and> set (shard_indices rs5 None Map.empty 2 0) \<inter> set (shard_indices rs5 None Map.empty 2 1) = {}
   \<and> set (shard_indices rs5 None Map.empty 2 0) \<union> set (shard_indices rs5 None Map.empty 2 1)
       = set (shard_indices rs5 None Map.empty 1 0)"
proof -
  have a: "shard_indices rs5 None Map.empty 2 0 = [1, 3, 5]" by code_simp
  have b: "shard_indices rs5 None Map.empty 2 1 = [4]" by code_simp
  have two: "{..<2::nat} = {0, 1}" by auto
  have h: "(1::nat) \<le> 2" by simp
  from shard_indices_partition [OF h, of rs5 None Map.empty]
  have "sorted_wrt (<) (shard_indices rs5 None Map.empty 2 0)"
    and "set (shard_indices rs5 None Map.empty 2 0) \<inter> set (shard_indices rs5 None Map.empty 2 1) = {}"
    and "(\<Union>w<2. set (shard_indices rs5 None Map.empty 2 w)) = set (shard_indices rs5 None Map.empty 1 0)"
    by simp_all
  with a b two show ?thesis by simp
qed

text \<open>
  C2. For every file and every worker count \<open>W \<ge> 1\<close>, after all \<open>W\<close> iterators have
  been consumed to the end, the final values of their skip counters (each started at 0)
  add up to the number of records of the file whose id is empty or whose label is
  required but absent; worker \<open>w\<close> counts exactly the rejected records at the places
  of its shard, so each is counted once.
\<close>

theorem skip_counters_sum:
  assumes "1 \<le> W"
  shows "(\<Sum>w<W. shard_skipped xs l v W w) = int (length (filter (rejected l) xs))
    \<and> (\<forall>w<W. shard_skipped xs l v W w
          = int (length [i \<leftarrow> [0..<length xs]. i mod W = w \<and> rejected l (xs ! i)]))"
proof (intro conjI allI impI)
  from assms have W: "0 < W" by simp
  have "(\<Sum>w<W. shard_skipped xs l v W w)
      = (\<Sum>w<W. int (length [i \<leftarrow> [0..<length xs]. i mod W = w \<and> rejected l (xs ! i)]))"
    using W by (intro sum.cong refl) (simp add: shard_skipped_eq)
  also have "\<dots> = int (length [i \<leftarrow> [0..<length xs]. rejected l (xs ! i)])"
    using W by (rule sum_stride_count)
  also have "\<dots> = int (length (filter (rejected l) xs))"
    by (simp add: length_filter_nth)
  finally show "(\<Sum>w<W. shard_skipped xs l v W w) = int (length (filter (rejected l) xs))" .
next
  fix w assume "w < W"
  with assms show "shard_skipped xs l v W w
       = int (length [i \<leftarrow> [0..<length xs]. i mod W = w \<and> rejected l (xs ! i)])"
    by (intro shard_skipped_eq) simp_all
qed

theorem skip_counters_sum_witness:
  "(1::nat) \<le> 2
   \<and> shard_skipped rs5 (Some [(''a'', 3), (''e'', 4)]) Map.empty 2 0 = 1
   \<and> shard_skipped rs5 (Some [(''a'', 3), (''e'', 4)]) Map.empty 2 1 = 2
   \<and> shard_skipped rs5 (Some [(''a'', 3), (''e'', 4)]) Map.empty 2 0
       + shard_skipped rs5 (Some [(''a'', 3), (''e'', 4)]) Map.empty 2 1
     = int (length (filter (rejected (Some [(''a'', 3), (''e'', 4)])) rs5))"
proof -
  have a: "shard_skipped rs5 (Some [(''a'', 3), (''e'', 4)]) Map.empty 2 0 = 1" by code_simp
  have b: "shard_skipped rs5 (Some [(''a'', 3), (''e'', 4)]) Map.empty 2 1 = 2" by code_simp
  have two: "{..<2::nat} = {0, 1}" by auto
  have h: "(1::nat) \<le> 2" by simp
  from skip_counters_sum [OF h, of rs5 "Some [(''a'', 3), (''e'', 4)]" Map.empty]
  have "(\<Sum>w<2. shard_skipped rs5 (Some [(''a'', 3), (''e'', 4)]) Map.empty 2 w)
     = int (length (filter (rejected (Some [(''a'', 3), (''e'', 4)])) rs5))"
    by (rule conjunct1)
  with a b two show ?thesis by simp
qed

text \<open>
  C10. In single-process iteration (\<^verbatim>\<open>get_worker_info()\<close> is \<open>None\<close>),
  \<^verbatim>\<open>ProteinDataset.__iter__\<close> gives the iterator the plain integer 0 as its skip
  counter: after the iterator has been consumed to the end, the counter of the dataset
  has the value it had before, and the rejected records have been counted in the
  integer of the iterator only. In a worker the iterator holds the shared counter,
  which grows by the number of rejected records of the worker's shard.
\<close>

theorem single_process_counter_unchanged:
  fixes ds :: "'a ProteinDataset_scheme"
  shows "n_skipped (ProteinDataset_iter ds None) = PlainInt 0
   \<and> ds_n_skipped (fst (snd (iterate_dataset ds None))) = ds_n_skipped ds
   \<and> n_skipped (fst (snd (snd (iterate_dataset ds None))))
       = PlainInt (int (length (filter (rejected (ds_labels ds)) (ds_file ds))))
   \<and> (\<forall>W w. 0 < W \<and> w < W \<longrightarrow>
         n_skipped (ProteinDataset_iter ds (Some (int W, int w))) = Synchronized
         \<and> ds_n_skipped (fst (snd (iterate_dataset ds (Some (int W, int w)))))
           = ds_n_skipped ds
             + int (length [i \<leftarrow> [0..<length (ds_file ds)].
                              i mod W = w \<and> rejected (ds_labels ds) (ds_file ds ! i)]))"
proof -
  have a: "n_skipped (ProteinDataset_iter ds None) = PlainInt 0"
    by (simp add: ProteinDataset_iter_def init_fields)
  have b: "n_skipped (ProteinDataset_iter ds (Some (int W, int w))) = Synchronized" for W w :: nat
    by (simp add: ProteinDataset_iter_def init_fields)
  note s = iterate_single [of ds]
  show ?thesis
  proof (intro conjI allI impI)
    show "n_skipped (ProteinDataset_iter ds None) = PlainInt 0" by (fact a)
    show "ds_n_skipped (fst (snd (iterate_dataset ds None))) = ds_n_skipped ds"
      using s by (rule conjunct1)
    show "n_skipped (fst (snd (snd (iterate_dataset ds None))))
       = PlainInt (int (length (filter (rejected (ds_labels ds)) (ds_file ds))))"
      using s by (rule conjunct2)
  next
    fix W w :: nat assume "0 < W \<and> w < W"
    show "n_skipped (ProteinDataset_iter ds (Some (int W, int w))) = Synchronized" by (fact b)
  next
    fix W w :: nat assume Ww: "0 < W \<and> w < W"
    show "ds_n_skipped (fst (snd (iterate_dataset ds (Some (int W, int w)))))
           = ds_n_skipped ds
             + int (length [i \<leftarrow> [0..<length (ds_file ds)].
                              i mod W = w \<and> rejected (ds_labels ds) (ds_file ds ! i)])"
      using iterate_worker [of W w ds] Ww by blast
  qed
qed

theorem single_process_counter_unchanged_witness:
  "ds_n_skipped (ProteinDataset_init rs5 None) = 0
   \<and> ds_n_skipped (fst (snd (iterate_dataset (ProteinDataset_init rs5 None) None))) = 0
   \<and> n_skipped (fst (snd (snd (iterate_dataset (ProteinDataset_init rs5 None) None)))) = PlainInt 1
   \<and> ds_n_skipped (fst (snd (iterate_dataset (ProteinDataset_init rs5 None) (Some (2, 1))))) = 1"
proof -
  have f: "ds_file (ProteinDataset_init rs5 None) = rs5" "ds_labels (ProteinDataset_init rs5 None) = None"
    "ds_n_skipped (ProteinDataset_init rs5 None) = 0"
    by (simp_all add: ProteinDataset_init_def)
  have a: "int (length (filter (rejected None) rs5)) = 1" by code_simp
  have b: "int (length [i \<leftarrow> [0..<length rs5]. i mod 2 = 1 \<and> rejected None (rs5 ! i)]) = 1" by code_simp
  note t = single_process_counter_unchanged [of "ProteinDataset_init rs5 None", unfolded f a]
  have h: "(0::nat) < 2 \<and> (1::nat) < 2" by simp
  from t [THEN conjunct2, THEN conjunct2, THEN conjunct2, rule_format, OF h, THEN conjunct2]
  have m: "ds_n_skipped (fst (snd (iterate_dataset (ProteinDataset_init rs5 None) (Some (int 2, int 1))))) = 1"
    unfolding b by simp
  have i: "int 2 = 2" "int 1 = 1" by simp_all
  show ?thesis
    using f(3) t [THEN conjunct2, THEN conjunct1] t [THEN conjunct2, THEN conjunct2, THEN conjunct1]
      m [unfolded i]
    by (intro conjI)
qed

text \<open>
  C9, as the code has it. \<^verbatim>\<open>__next__\<close> has no state for an exhausted iterator:
  every call that meets the end of the file calls \<^verbatim>\<open>close()\<close> once and raises
  \<open>StopIteration\<close>. So, for an iterator made with \<open>num_workers \<ge> 1\<close> and
  \<open>worker_id \<ge> 0\<close> and after any number of calls: when a call raises
  \<open>StopIteration\<close> it has called \<^verbatim>\<open>close()\<close> exactly once; the iterator is then
  terminal, every later call raises \<open>StopIteration\<close> again and returns no record;
  and each of these calls calls \<^verbatim>\<open>close()\<close> once more, \<open>k\<close> further calls
  making \<open>1 + k\<close> calls of \<^verbatim>\<open>close()\<close> in all.
\<close>

theorem close_at_every_end_of_stream:
  assumes "1 \<le> W" "0 \<le> w"
    and "repeat_next m c0 (ProteinIterator_init xs l v n W w) = ((c, it), rs)"
    and "ProteinIterator_next c it = ((c1, it1), Inl StopIteration)"
  shows "closed it1 = closed it + 1 \<and> iterator it1 = []
     \<and> (\<forall>k. snd (repeat_next k c1 it1) = replicate k (Inl StopIteration)
          \<and> closed (snd (fst (repeat_next k c1 it1))) = closed it1 + k
          \<and> iterator (snd (fst (repeat_next k c1 it1))) = [])"
proof -
  have wf: "well_formed it"
    using well_formed_init [OF assms(1,2)] assms(3) by (rule repeat_next_well_formed)
  from ProteinIterator_next_well_formed [OF wf assms(4)]
  have wf1: "well_formed it1" and e: "iterator it1 = []" "closed it1 = closed it + 1"
    by simp_all
  have "snd (repeat_next k c1 it1) = replicate k (Inl StopIteration)
          \<and> closed (snd (fst (repeat_next k c1 it1))) = closed it1 + k
          \<and> iterator (snd (fst (repeat_next k c1 it1))) = []" for k
  proof -
    from repeat_next_exhausted [OF wf1 e(1), of k c1] obtain it2 where
      "repeat_next k c1 it1 = ((c1, it2), replicate k (Inl StopIteration))"
      "closed it2 = closed it1 + k" "iterator it2 = []"
      by (elim exE conjE)
    then show ?thesis by simp
  qed
  with e show ?thesis by simp
qed

theorem close_at_every_end_of_stream_witness:
  "(1::int) \<le> 1 \<and> (0::int) \<le> 0
   \<and> snd (ProteinIterator_next 0 it_empty) = Inl StopIteration
   \<and> closed (snd (fst (ProteinIterator_next 0 it_empty))) = 1
   \<and> snd (repeat_next 3 (fst (fst (ProteinIterator_next 0 it_empty)))
            (snd (fst (ProteinIterator_next 0 it_empty))))
       = [Inl StopIteration, Inl StopIteration, Inl StopIteration]
   \<and> closed (snd (fst (repeat_next 3 (fst (fst (ProteinIterator_next 0 it_empty)))
                         (snd (fst (ProteinIterator_next 0 it_empty)))))) = 4"
proof -
  let ?N = "ProteinIterator_next 0 it_empty"
  have s: "snd ?N = Inl StopIteration" by code_simp
  have c0: "closed it_empty = 0" by (simp add: it_empty_def init_fields)
  have nx: "?N = ((fst (fst ?N), snd (fst ?N)), Inl StopIteration)"
    using s by (simp add: prod_eq_iff)
  have r0: "repeat_next 0 0 (ProteinIterator_init [] None Map.empty (PlainInt 0) 1 0)
      = ((0, it_empty), [])"
    by (simp add: it_empty_def)
  have h: "(1::int) \<le> 1" "(0::int) \<le> 0" by simp_all
  note t = close_at_every_end_of_stream [OF h r0 nx]
  from t [THEN conjunct1] c0 have c1: "closed (snd (fst ?N)) = 1" by simp
  from t [THEN conjunct2, THEN conjunct2, rule_format, of 3] c1
  have "snd (repeat_next 3 (fst (fst ?N)) (snd (fst ?N))) = replicate 3 (Inl StopIteration)"
    "closed (snd (fst (repeat_next 3 (fst (fst ?N)) (snd (fst ?N))))) = 4"
    by simp_all
  with s c1 show ?thesis by (simp add: numeral_3_eq_3)
qed

text \<open>
  C9 as stated fails: \<^verbatim>\<open>close()\<close> is not called once in the lifetime of the
  iterator. Two calls of \<^verbatim>\<open>__next__\<close> on an iterator over the empty file both
  raise \<open>StopIteration\<close> and leave two calls of \<^verbatim>\<open>close()\<close>; and
  \<^verbatim>\<open>ShuffledProteinDataset.__iter__\<close> itself calls \<^verbatim>\<open>next\<close> again after the fill
  phase has met the end of the file, so that a file of one record with a buffer of five
  is closed twice.
\<close>

theorem close_called_twice:
  "snd (repeat_next 2 0 it_empty) = [Inl StopIteration, Inl StopIteration]
   \<and> closed (snd (fst (repeat_next 2 0 it_empty))) = 2
   \<and> fst (ShuffledProteinDataset_iter (ShuffledProteinDataset_init rs1 None 5) None (\<lambda>k. 0))
       = fst (iterate_dataset (ShuffledProteinDataset_init rs1 None 5) None)
   \<and> closed (fst (snd (snd
        (ShuffledProteinDataset_iter (ShuffledProteinDataset_init rs1 None 5) None (\<lambda>k. 0))))) = 2"
  by code_simp

section \<open>Claims about the shuffle buffer\<close>

text \<open>With a buffer of at least two records the shuffle stage raises nothing and
  yields the records of the underlying iterator, each once, whatever is drawn.\<close>

theorem shuffle_preserves_records:
  assumes b: "2 \<le> buffer_size ds"
    and wi: "wi = None \<or> (\<exists>W w. wi = Some (W, w) \<and> 1 \<le> W \<and> 0 \<le> w)"
  shows "snd (snd (snd (ShuffledProteinDataset_iter ds wi g))) = None
     \<and> mset (fst (ShuffledProteinDataset_iter ds wi g)) = mset (fst (iterate_dataset ds wi))"
proof -
  let ?it = "ProteinDataset_iter ds wi" and ?c = "ds_n_skipped ds"
  have wf: "well_formed ?it" using wi by (rule well_formed_dataset_iter)
  obtain s1 shufbuf raised where f0: "fill (nat (buffer_size ds)) ?c ?it [] = (s1, shufbuf, raised)"
    by (rule prod_cases3)
  obtain c1 it1 where s1: "s1 = (c1, it1)" by (rule prod.exhaust)
  note f = f0 [unfolded s1]
  from fill_spec [OF wf f]
  have wf1: "well_formed it1" and all: "shufbuf @ fst (exhaust c1 it1) = fst (exhaust ?c ?it)"
    and cases: "raised = None \<and> length shufbuf = nat (buffer_size ds)
        \<or> raised = Some StopIteration \<and> iterator it1 = []"
    by simp_all
  have src: "fst (iterate_dataset ds wi) = fst (exhaust ?c ?it)"
    by (simp add: iterate_dataset_def split: prod.splits)
  from cases show ?thesis
  proof
    assume a: "raised = None \<and> length shufbuf = nat (buffer_size ds)"
    then have len: "int (length shufbuf) = buffer_size ds" using b by simp
    from steady_mset [OF b len wf1, of g 0 c1] obtain ys s2 shufbuf2 where
      st: "steady g 0 (buffer_size ds) c1 it1 shufbuf = (ys, s2, shufbuf2, None)"
      and ms: "mset ys + mset shufbuf2 = mset shufbuf + mset (fst (exhaust c1 it1))"
      by (elim exE conjE)
    obtain c2 it2 where s2: "s2 = (c2, it2)" by (rule prod.exhaust)
    have res: "ShuffledProteinDataset_iter ds wi g
        = (ys @ drain shufbuf2, ds\<lparr>ds_n_skipped := c2, buffer_size := buffer_size ds\<rparr>, it2, None)"
      unfolding ShuffledProteinDataset_iter_def f using a st s2 by simp
    have "mset (ys @ drain shufbuf2) = mset (shufbuf @ fst (exhaust c1 it1))"
      using ms by (simp add: drain_rev)
    then show ?thesis unfolding res src all by simp
  next
    assume a: "raised = Some StopIteration \<and> iterator it1 = []"
    from ProteinIterator_next_exhausted [OF wf1, of c1] a obtain it2 where
      nx: "ProteinIterator_next c1 it1 = ((c1, it2), Inl StopIteration)" by auto
    have st: "steady g 0 (int (length shufbuf)) c1 it1 shufbuf = ([], (c1, it2), shufbuf, None)"
      using nx by (rule steady_stop)
    have res: "ShuffledProteinDataset_iter ds wi g
        = (drain shufbuf, ds\<lparr>ds_n_skipped := c1, buffer_size := int (length shufbuf)\<rparr>, it2, None)"
      unfolding ShuffledProteinDataset_iter_def f using a st by simp
    have "fst (exhaust c1 it1) = []" using wf1 a by (intro exhaust_exhausted) simp_all
    with all have "shufbuf = fst (exhaust ?c ?it)" by simp
    then show ?thesis unfolding res src by (simp add: drain_rev)
  qed
qed

text \<open>
  C3 at a buffer of one record. The file has two records, both valid, and
  \<^verbatim>\<open>buffer_size = 1\<close>: the fill phase reads the first record, the steady-state
  loop reads the second and calls \<^verbatim>\<open>np.random.randint(0, 0)\<close>, which raises
  \<open>ValueError\<close>. Whatever the generator draws, the stage yields no record and
  raises, while the underlying iterator returns both records.
\<close>

theorem shuffle_buffer_one_raises:
  "fst (ShuffledProteinDataset_iter (ShuffledProteinDataset_init rs2 None 1) None g) = []
   \<and> snd (snd (snd (ShuffledProteinDataset_iter (ShuffledProteinDataset_init rs2 None 1) None g)))
       = Some ValueError
   \<and> map seq_id (fst (iterate_dataset (ShuffledProteinDataset_init rs2 None 1) None))
       = [''a'', ''c'']"
  by code_simp




section \<open>Claims about the collator\<close>

text \<open>
  C5. For every non-empty batch, \<^verbatim>\<open>collate_sequences\<close> with zero padding returns a
  matrix with one row for each record, and every row has the length
  \<open>max(min_length, length of the longest encoded record)\<close>. Row \<open>i\<close> holds the
  encoded record \<open>i\<close> from an offset \<open>first\<close> on and 0 at every other position.
  Without random padding, and for a record as long as the row, the offset is 0; with
  random padding a record shorter than the row gets as offset a draw of
  \<^verbatim>\<open>np.random.choice(max_len - len(encoded) + 1)\<close>, which lies in
  \<open>[0, max_len - len(encoded)]\<close>, and every offset of that range is the result of
  some draw. (That the draw is uniform is a property of NumPy's generator, outside this
  model.)
\<close>

theorem collate_sequences_padding:
  assumes "as_list batch \<noteq> []"
  shows "\<exists>out. collate_sequences batch True min_length random_padding g = Inr out
     \<and> length (sequences out) = length (as_list batch)
     \<and> (\<forall>i<length (as_list batch).
          length (sequences out ! i)
            = nat (max min_length (Max ((\<lambda>s. int (length (seq_encoded s))) ` set (as_list batch))))
          \<and> (\<exists>first. placed random_padding
                (max min_length (Max ((\<lambda>s. int (length (seq_encoded s))) ` set (as_list batch))))
                g (seq_encoded (as_list batch ! i)) first (sequences out ! i)))
     \<and> (\<forall>n t. 0 \<le> t \<and> t \<le> n \<longrightarrow> choice (n + 1) (nat t) = Inr t)"
proof -
  let ?M = "max min_length (Max ((\<lambda>s. int (length (seq_encoded s))) ` set (as_list batch)))"
  have M: "find_max_len min_length (as_list batch) = ?M"
    using assms by (simp add: find_max_len_eq)
  from collate_nonempty [OF assms, of min_length random_padding g] obtain out where
    r: "collate_sequences batch True min_length random_padding g = Inr out"
    and len: "length (sequences out) = length (as_list batch)"
    and rows: "\<forall>i<length (as_list batch). \<exists>first.
          placed random_padding ?M g (seq_encoded (as_list batch ! i)) first (sequences out ! i)"
    unfolding M by (elim exE conjE)
  have "length (sequences out ! i) = nat ?M" if "i < length (as_list batch)" for i
    using rows that placed_length by blast
  moreover have "choice (n + 1) (nat t) = Inr t" if "0 \<le> t \<and> t \<le> n" for n t
    using that by (intro choice_reach) simp_all
  ultimately show ?thesis using r len rows by blast
qed

theorem collate_sequences_padding_witness:
  "as_list (Batch [seqA, seqB]) \<noteq> []
   \<and> map_sum id sequences (collate_sequences (Batch [seqA, seqB]) True 4 False draws_one)
       = Inr [[1, 2, 3, 0, 0], [4, 5, 6, 7, 8]]
   \<and> map_sum id sequences (collate_sequences (Batch [seqA, seqB]) True 4 True draws_one)
       = Inr [[0, 1, 2, 3, 0], [4, 5, 6, 7, 8]]
   \<and> (\<exists>out. collate_sequences (Batch [seqA, seqB]) True 4 False draws_one = Inr out
         \<and> length (sequences out) = 2
         \<and> length (sequences out ! 0) = 5 \<and> length (sequences out ! 1) = 5
         \<and> (\<exists>first. placed False 5 draws_one [1, 2, 3] first (sequences out ! 0)))"
proof -
  have ne: "as_list (Batch [seqA, seqB]) \<noteq> []" by (simp add: as_list_def)
  have e1: "map_sum id sequences (collate_sequences (Batch [seqA, seqB]) True 4 False draws_one)
       = Inr [[1, 2, 3, 0, 0], [4, 5, 6, 7, 8]]" by code_simp
  have e2: "map_sum id sequences (collate_sequences (Batch [seqA, seqB]) True 4 True draws_one)
       = Inr [[0, 1, 2, 3, 0], [4, 5, 6, 7, 8]]" by code_simp
  have M: "max 4 (Max ((\<lambda>s. int (length (seq_encoded s))) ` set (as_list (Batch [seqA, seqB])))) = 5"
    by (simp add: as_list_def seqA_def seqB_def)
  have l: "length (as_list (Batch [seqA, seqB])) = 2" "as_list (Batch [seqA, seqB]) ! 0 = seqA"
    "as_list (Batch [seqA, seqB]) ! 1 = seqB" "seq_encoded seqA = [1, 2, 3]"
    by (simp_all add: as_list_def seqA_def)
  from collate_sequences_padding [OF ne, of 4 False draws_one, unfolded M l]
  obtain out where r: "collate_sequences (Batch [seqA, seqB]) True 4 False draws_one = Inr out"
    and len: "length (sequences out) = 2"
    and rows: "\<forall>i<2. length (sequences out ! i) = nat 5
          \<and> (\<exists>first. placed False 5 draws_one (seq_encoded (as_list (Batch [seqA, seqB]) ! i)) first
                (sequences out ! i))"
    by (elim exE conjE)
  from rows [rule_format, of 0] rows [rule_format, of 1] l
  have "length (sequences out ! 0) = 5" "length (sequences out ! 1) = 5"
    "\<exists>first. placed False 5 draws_one [1, 2, 3] first (sequences out ! 0)"
    by simp_all
  with r len have "\<exists>out. collate_sequences (Batch [seqA, seqB]) True 4 False draws_one = Inr out
         \<and> length (sequences out) = 2
         \<and> length (sequences out ! 0) = 5 \<and> length (sequences out ! 1) = 5
         \<and> (\<exists>first. placed False 5 draws_one [1, 2, 3] first (sequences out ! 0))"
    by blast
  with ne e1 e2 show ?thesis by (intro conjI)
qed

text \<open>
  C6. \<^verbatim>\<open>collate_sequences\<close> raises in two cases and in no other: without zero
  padding it raises \<open>NotImplementedError\<close>, and for an empty list it raises when
  the empty matrix is handed to \<^verbatim>\<open>default_collate\<close> (\<open>IndexError\<close>; for a
  negative \<open>min_length\<close> already \<^verbatim>\<open>np.zeros\<close> raises \<open>ValueError\<close>). For
  every non-empty batch, or a single record, with zero padding it returns a batch.
\<close>

theorem collate_sequences_errors:
  "collate_sequences batch False min_length random_padding g = Inl NotImplementedError
   \<and> (as_list batch = [] \<longrightarrow>
        collate_sequences batch True min_length random_padding g
          = Inl (if min_length < 0 then ValueError else IndexError))
   \<and> (as_list batch \<noteq> [] \<longrightarrow>
        (\<exists>out. collate_sequences batch True min_length random_padding g = Inr out))
   \<and> ((\<exists>e. collate_sequences batch zero_padding min_length random_padding g = Inl e)
        \<longleftrightarrow> (\<not> zero_padding \<or> as_list batch = []))"
proof (intro conjI impI)
  show u: "collate_sequences batch False min_length random_padding g = Inl NotImplementedError"
    by (rule collate_unpadded)
  show "collate_sequences batch True min_length random_padding g
          = Inl (if min_length < 0 then ValueError else IndexError)" if "as_list batch = []"
    using that by (rule collate_empty)
  show ok: "\<exists>out. collate_sequences batch True min_length random_padding g = Inr out"
    if "as_list batch \<noteq> []"
    using collate_nonempty [OF that, of min_length random_padding g] by blast
  show "(\<exists>e. collate_sequences batch zero_padding min_length random_padding g = Inl e)
        \<longleftrightarrow> (\<not> zero_padding \<or> as_list batch = [])"
  proof (cases zero_padding)
    case False
    then show ?thesis using u by simp
  next
    case True
    show ?thesis
    proof (cases "as_list batch = []")
      case e: True
      then show ?thesis using True collate_empty [OF e, of min_length random_padding g] by simp
    next
      case ne: False
      from ok [OF ne] obtain out where
        "collate_sequences batch True min_length random_padding g = Inr out" ..
      then show ?thesis using True ne by simp
    qed
  qed
qed

theorem collate_sequences_errors_witness:
  "collate_sequences (Single seqA) False 36 False draws_one = Inl NotImplementedError
   \<and> as_list (Batch []) = []
   \<and> collate_sequences (Batch []) True 36 False draws_one = Inl IndexError
   \<and> as_list (Batch [seqA, seqB]) \<noteq> []
   \<and> (\<exists>out. collate_sequences (Batch [seqA, seqB]) True 36 False draws_one = Inr out)
   \<and> (\<exists>out. collate_sequences (Single seqA) True 36 False draws_one = Inr out)"
proof -
  have e: "as_list (Batch []) = []" by (simp add: as_list_def)
  have ne: "as_list (Batch [seqA, seqB]) \<noteq> []" "as_list (Single seqA) \<noteq> []"
    by (simp_all add: as_list_def)
  note t1 = collate_sequences_errors [of "Single seqA" 36 False draws_one False, THEN conjunct1]
  note t2 = collate_sequences_errors [of "Batch []" 36 False draws_one True,
      THEN conjunct2, THEN conjunct1, rule_format, OF e]
  note t3 = collate_sequences_errors [of "Batch [seqA, seqB]" 36 False draws_one True,
      THEN conjunct2, THEN conjunct2, THEN conjunct1, rule_format, OF ne(1)]
  note t4 = collate_sequences_errors [of "Single seqA" 36 False draws_one True,
      THEN conjunct2, THEN conjunct2, THEN conjunct1, rule_format, OF ne(2)]
  have i: "(if (36::int) < 0 then ValueError else IndexError) = IndexError" by simp
  show ?thesis using t1 e t2 [unfolded i] ne(1) t3 t4 by (intro conjI)
qed

end
